theory Spec2Isabelle
  imports Complex_Main
begin

section \<open>The host objects that \<open>mesonbuild/cargo/validate.py\<close> inspects\<close>

text \<open>
  The validator is written against the reflection interface of CPython's \<open>typing\<close>
  module (behaviour of CPython 3.11).  A type annotation is a Python object whose attributes
  (\<open>__origin__\<close>, \<open>__args__\<close>, \<open>__supertype__\<close>, ...) the code queries; a value is any
  other Python object.  Exceptions are values of type \<open>error\<close>.
\<close>

datatype error = TypeError | ValueError | AttributeError

subsection \<open>Classes\<close>

text \<open>
  A user-defined class: its name (standing for its identity), whether it carries the
  \<open>@dataclass\<close> decoration, and its base classes.
\<close>

datatype ucls = UCls string bool "ucls list"

text \<open>
  Builtin classes, the abstract base classes of \<open>collections.abc\<close> that the validator
  meets, \<open>dataclasses.InitVar\<close>, and user classes.
\<close>

datatype cls =
    C_object | C_type | C_NoneType | C_ellipsis
  | C_bool | C_int | C_float | C_complex | C_str | C_bytes
  | C_list | C_tuple | C_dict | C_set | C_frozenset
  | C_InitVar
  | Abc_Collection | Abc_Sequence | Abc_Mapping | Abc_Set
  | C_user ucls

fun usubclass :: "ucls \<Rightarrow> ucls \<Rightarrow> bool" where
  "usubclass (UCls n d bs) b = (UCls n d bs = b \<or> list_ex (\<lambda>a. usubclass a b) bs)"

text \<open>\<open>dataclasses.is_dataclass\<close> on a class: the class or one of its bases is decorated.\<close>

fun udataclass :: "ucls \<Rightarrow> bool" where
  "udataclass (UCls n d bs) = (d \<or> list_ex udataclass bs)"

text \<open>
  Python's \<open>issubclass(sub, base)\<close> on two classes: \<open>bool\<close> derives from \<open>int\<close>, every
  class derives from \<open>object\<close>, and the abstract base classes accept the builtin
  containers registered with them.
\<close>

definition issubclass :: "cls \<Rightarrow> cls \<Rightarrow> bool" where
  "issubclass sub base =
     (if base = C_object \<or> sub = base then True
      else case base of
          C_int \<Rightarrow> sub = C_bool
        | Abc_Collection \<Rightarrow>
            sub \<in> set [C_list, C_tuple, C_dict, C_set, C_frozenset, C_str, C_bytes,
                        Abc_Sequence, Abc_Mapping, Abc_Set]
        | Abc_Sequence \<Rightarrow> sub \<in> set [C_list, C_tuple, C_str, C_bytes]
        | Abc_Mapping \<Rightarrow> sub = C_dict
        | Abc_Set \<Rightarrow> sub \<in> set [C_set, C_frozenset]
        | C_user b \<Rightarrow> (case sub of C_user a \<Rightarrow> usubclass a b | _ \<Rightarrow> False)
        | _ \<Rightarrow> False)"

subsection \<open>Values\<close>

text \<open>
  The dynamic values handed to a compiled predicate.  Finite floats are the rationals they
  denote (only equality with other numbers is ever observed); a dictionary is the list of
  its items in insertion order; \<open>PClass c\<close> is the class object \<open>c\<close> itself;
  \<open>PObject u i\<close> is the instance with identity \<open>i\<close> of the user class \<open>u\<close>, with
  the default identity-based equality.
\<close>

datatype pyval =
    PNone | PEllipsis
  | PBool bool | PInt int | PFloat rat | PComplex rat rat
  | PStr string | PBytes "nat list"
  | PList "pyval list" | PTuple "pyval list" | PSet "pyval list" | PFrozenSet "pyval list"
  | PDict "(pyval \<times> pyval) list"
  | PClass cls
  | PObject ucls nat

fun type_of :: "pyval \<Rightarrow> cls" where
  "type_of PNone = C_NoneType"
| "type_of PEllipsis = C_ellipsis"
| "type_of (PBool b) = C_bool"
| "type_of (PInt i) = C_int"
| "type_of (PFloat r) = C_float"
| "type_of (PComplex r i) = C_complex"
| "type_of (PStr s) = C_str"
| "type_of (PBytes bs) = C_bytes"
| "type_of (PList xs) = C_list"
| "type_of (PTuple xs) = C_tuple"
| "type_of (PSet xs) = C_set"
| "type_of (PFrozenSet xs) = C_frozenset"
| "type_of (PDict kvs) = C_dict"
| "type_of (PClass c) = C_type"
| "type_of (PObject u i) = C_user u"

definition isinstance :: "pyval \<Rightarrow> cls \<Rightarrow> bool" where
  "isinstance v c = issubclass (type_of v) c"

text \<open>Truthiness, as used by \<open>not value\<close>.\<close>

fun py_truth :: "pyval \<Rightarrow> bool" where
  "py_truth PNone = False"
| "py_truth (PBool b) = b"
| "py_truth (PInt i) = (i \<noteq> 0)"
| "py_truth (PFloat r) = (r \<noteq> 0)"
| "py_truth (PComplex r i) = (r \<noteq> 0 \<or> i \<noteq> 0)"
| "py_truth (PStr s) = (s \<noteq> [])"
| "py_truth (PBytes bs) = (bs \<noteq> [])"
| "py_truth (PList xs) = (xs \<noteq> [])"
| "py_truth (PTuple xs) = (xs \<noteq> [])"
| "py_truth (PSet xs) = (xs \<noteq> [])"
| "py_truth (PFrozenSet xs) = (xs \<noteq> [])"
| "py_truth (PDict kvs) = (kvs \<noteq> [])"
| "py_truth v = True"

text \<open>Iteration (\<open>for item in value\<close>), \<open>len(value)\<close> and \<open>value.items()\<close>.\<close>

fun py_iter :: "pyval \<Rightarrow> error + pyval list" where
  "py_iter (PList xs) = Inr xs"
| "py_iter (PTuple xs) = Inr xs"
| "py_iter (PSet xs) = Inr xs"
| "py_iter (PFrozenSet xs) = Inr xs"
| "py_iter (PDict kvs) = Inr (map fst kvs)"
| "py_iter (PStr s) = Inr (map (\<lambda>ch. PStr [ch]) s)"
| "py_iter (PBytes bs) = Inr (map (\<lambda>n. PInt (int n)) bs)"
| "py_iter v = Inl TypeError"

fun py_len :: "pyval \<Rightarrow> error + nat" where
  "py_len (PList xs) = Inr (length xs)"
| "py_len (PTuple xs) = Inr (length xs)"
| "py_len (PSet xs) = Inr (length xs)"
| "py_len (PFrozenSet xs) = Inr (length xs)"
| "py_len (PDict kvs) = Inr (length kvs)"
| "py_len (PStr s) = Inr (length s)"
| "py_len (PBytes bs) = Inr (length bs)"
| "py_len v = Inl TypeError"

fun py_items :: "pyval \<Rightarrow> error + (pyval \<times> pyval) list" where
  "py_items (PDict kvs) = Inr kvs"
| "py_items v = Inl AttributeError"

text \<open>\<open>k in value\<close> for a string \<open>k\<close>: only a dictionary key that is that string matches.\<close>

fun py_has_key :: "pyval \<Rightarrow> string \<Rightarrow> bool" where
  "py_has_key (PDict kvs) k = (PStr k \<in> fst ` set kvs)"
| "py_has_key v k = False"

subsection \<open>Constants in type-argument positions\<close>

text \<open>
  Objects that are not types but occur in \<open>__args__\<close>: the values of a \<open>Literal\<close>, the
  empty tuple of \<open>Tuple[()]\<close>, the \<open>...\<close> of \<open>Tuple[t, ...]\<close>, and the slot descriptor
  that \<open>InitVar.type\<close> yields on the unparameterised class.
\<close>

datatype const =
    KNone | KBool bool | KInt int | KFloat rat | KComplex rat rat
  | KStr string | KBytes "nat list"
  | KEmptyTuple | KEllipsis | KSlot

fun num_of_const :: "const \<Rightarrow> (rat \<times> rat) option" where
  "num_of_const (KBool b) = Some (if b then 1 else 0, 0)"
| "num_of_const (KInt i) = Some (of_int i, 0)"
| "num_of_const (KFloat r) = Some (r, 0)"
| "num_of_const (KComplex r i) = Some (r, i)"
| "num_of_const k = None"

fun num_of_val :: "pyval \<Rightarrow> (rat \<times> rat) option" where
  "num_of_val (PBool b) = Some (if b then 1 else 0, 0)"
| "num_of_val (PInt i) = Some (of_int i, 0)"
| "num_of_val (PFloat r) = Some (r, 0)"
| "num_of_val (PComplex r i) = Some (r, i)"
| "num_of_val v = None"

text \<open>
  Python's \<open>==\<close> between such a constant and a value: numbers of any kind (booleans
  included) compare by numeric value, everything else only with its own kind.
\<close>

fun py_eq :: "const \<Rightarrow> pyval \<Rightarrow> bool" where
  "py_eq KNone v = (v = PNone)"
| "py_eq (KStr s) v = (v = PStr s)"
| "py_eq (KBytes bs) v = (v = PBytes bs)"
| "py_eq KEmptyTuple v = (v = PTuple [])"
| "py_eq KEllipsis v = (v = PEllipsis)"
| "py_eq KSlot v = False"
| "py_eq k v = (num_of_val v = num_of_const k)"

text \<open>\<open>==\<close> between two such constants.\<close>

fun const_eq :: "const \<Rightarrow> const \<Rightarrow> bool" where
  "const_eq k l =
     (case num_of_const k of
        Some z \<Rightarrow> num_of_const l = Some z
      | None \<Rightarrow> k = l)"

section \<open>Type annotations\<close>

text \<open>
  The annotation objects that can be handed to \<open>validator\<close>:
  \<^item> \<open>HAny\<close> is \<open>typing.Any\<close>;
  \<^item> \<open>HUnion ts\<close> is \<open>typing.Union[ts]\<close> (\<open>Optional[t]\<close> is \<open>Union[t, NoneType]\<close>);
  \<^item> \<open>HTypedDict name total fields\<close> is a \<open>TypedDict\<close> class that lists
    \<open>typing.TypedDict\<close> itself among its bases, so that its \<open>__orig_bases__\<close> holds
    \<open>typing.TypedDict\<close>, with its \<open>__total__\<close> flag; each field is its name, whether its
    annotation is wrapped in \<open>typing.Required\<close>, and the annotation without that wrapper;
  \<^item> \<open>HDerivedTypedDict name total fields\<close> is a \<open>TypedDict\<close> class whose
    \<open>__orig_bases__\<close> is missing or does not hold \<open>typing.TypedDict\<close>: a class derived
    from another \<open>TypedDict\<close> class, or one made by the functional syntax on this host;
  \<^item> \<open>HNewType name t\<close> is \<open>typing.NewType(name, t)\<close>;
  \<^item> \<open>HLiteral ks\<close> is \<open>typing.Literal[ks]\<close>;
  \<^item> \<open>HInitVar i t\<close> is the object (of identity \<open>i\<close>) made by \<open>dataclasses.InitVar[t]\<close>;
  \<^item> \<open>HAlias c ts\<close> is a subscripted generic alias with origin class \<open>c\<close>
    (\<open>List[t]\<close>, \<open>Dict[k, v]\<close>, \<open>Tuple[...]\<close>, \<open>Type[t]\<close>, ...);
  \<^item> \<open>HBare c\<close> is the unsubscripted alias (\<open>typing.List\<close>, \<open>typing.Type\<close>, ...);
  \<^item> \<open>HClass c\<close> is a class used as an annotation, one that supports \<open>isinstance\<close>
    and \<open>issubclass\<close> (a builtin class, an abstract base class, an ordinary user class
    or dataclass);
  \<^item> \<open>HProtocol name\<close> is a \<open>typing.Protocol\<close> class without
    \<open>@runtime_checkable\<close>: \<open>isinstance\<close> and \<open>issubclass\<close> against it raise
    \<open>TypeError\<close>, as they do against every \<open>TypedDict\<close> class;
  \<^item> \<open>HConst k\<close> is a constant in a type-argument position.
\<close>

datatype hint =
    HAny
  | HUnion "hint list"
  | HTypedDict string bool "(string \<times> bool \<times> hint) list"
  | HDerivedTypedDict string bool "(string \<times> bool \<times> hint) list"
  | HNewType string hint
  | HLiteral "const list"
  | HInitVar nat hint
  | HAlias cls "hint list"
  | HBare cls
  | HClass cls
  | HProtocol string
  | HConst const

text \<open>The value of \<open>__origin__\<close>: a class or one of the special forms.\<close>

datatype origin = O_cls cls | O_Union | O_Literal

text \<open>
  Attribute reads; \<open>None\<close> stands for \<open>AttributeError\<close>.  No object has \<open>__extra__\<close>
  or a true \<open>_special\<close> on this host, and an unsubscripted alias has no \<open>__args__\<close>.
\<close>

fun attr_origin :: "hint \<Rightarrow> origin option" where
  "attr_origin (HUnion ts) = Some O_Union"
| "attr_origin (HLiteral ks) = Some O_Literal"
| "attr_origin (HAlias c ts) = Some (O_cls c)"
| "attr_origin (HBare c) = Some (O_cls c)"
| "attr_origin t = None"

definition attr_extra :: "hint \<Rightarrow> origin option" where
  "attr_extra t = None"

definition attr_special :: "hint \<Rightarrow> bool" where
  "attr_special t = False"

fun attr_args :: "hint \<Rightarrow> hint list option" where
  "attr_args (HUnion ts) = Some ts"
| "attr_args (HLiteral ks) = Some (map HConst ks)"
| "attr_args (HAlias c ts) = Some ts"
| "attr_args t = None"

fun attr_supertype :: "hint \<Rightarrow> hint option" where
  "attr_supertype (HNewType n t) = Some t"
| "attr_supertype t = None"

text \<open>
  \<open>__orig_bases__\<close> exists and contains \<open>typing.TypedDict\<close>: only for a class that
  names \<open>typing.TypedDict\<close> as a base.  A class derived from another \<open>TypedDict\<close> class
  has no such entry, and neither has any other object.
\<close>

fun orig_bases_has_TypedDict :: "hint \<Rightarrow> bool" where
  "orig_bases_has_TypedDict (HTypedDict n tot fs) = True"
| "orig_bases_has_TypedDict (HDerivedTypedDict n tot fs) = False"
| "orig_bases_has_TypedDict t = False"

text \<open>No modelled annotation is a PEP 604 union object.\<close>

definition isinstance_UnionType :: "hint \<Rightarrow> bool" where
  "isinstance_UnionType t = False"

subsection \<open>The classification helpers of the source\<close>

definition extract_origin_collection :: "hint \<Rightarrow> origin option" where
  "extract_origin_collection collection =
     (case attr_extra collection of
        Some e \<Rightarrow> Some e
      | None \<Rightarrow> attr_origin collection)"

definition is_generic :: "hint \<Rightarrow> bool" where
  "is_generic t = (attr_origin t \<noteq> None)"

definition is_union :: "hint \<Rightarrow> bool" where
  "is_union t =
     (if is_generic t \<and> attr_origin t = Some O_Union then True
      else isinstance_UnionType t)"

definition is_typed_dict :: "hint \<Rightarrow> bool" where
  "is_typed_dict t = orig_bases_has_TypedDict t"

definition is_literal :: "hint \<Rightarrow> bool" where
  "is_literal t = (is_generic t \<and> attr_origin t = Some O_Literal)"

definition is_new_type :: "hint \<Rightarrow> bool" where
  "is_new_type t = (attr_supertype t \<noteq> None)"

definition extract_new_type :: "hint \<Rightarrow> hint option" where
  "extract_new_type t = attr_supertype t"

text \<open>\<open>isinstance(type_, InitVar) or type_ is InitVar\<close>.\<close>

fun is_init_var :: "hint \<Rightarrow> bool" where
  "is_init_var (HInitVar i t) = True"
| "is_init_var (HClass c) = (c = C_InitVar)"
| "is_init_var t = False"

text \<open>
  \<open>type_.type\<close>: the inner annotation of an \<open>InitVar[t]\<close> object; on the class
  \<open>InitVar\<close> itself the slot descriptor; \<open>Any\<close> where the attribute is missing.
\<close>

fun extract_init_var :: "hint \<Rightarrow> hint" where
  "extract_init_var (HInitVar i t) = t"
| "extract_init_var (HClass c) = (if c = C_InitVar then HConst KSlot else HAny)"
| "extract_init_var t = HAny"

text \<open>
  \<open>issubclass(origin, T.Collection)\<close> raises \<open>TypeError\<close> on a special form, which the
  source catches.
\<close>

definition is_generic_collection :: "hint \<Rightarrow> bool" where
  "is_generic_collection t =
     (if \<not> is_generic t then False
      else case extract_origin_collection t of
          Some (O_cls c) \<Rightarrow> issubclass c Abc_Collection
        | _ \<Rightarrow> False)"

definition extract_generic :: "hint \<Rightarrow> hint list \<Rightarrow> hint list" where
  "extract_generic t defaults =
     (if attr_special t then defaults
      else case attr_args t of
          None \<Rightarrow> defaults
        | Some args \<Rightarrow>
            if args = [] then [HConst KEmptyTuple]
            else args)"

text \<open>
  \<open>is_subclass\<close>: outside the generic collections only a class can be the first argument
  of \<open>issubclass\<close>; for any other object it raises \<open>TypeError\<close>, answered by \<open>False\<close>.
\<close>

definition is_subclass :: "hint \<Rightarrow> cls \<Rightarrow> bool" where
  "is_subclass sub_type base_type =
     (if is_generic_collection sub_type
      then (case extract_origin_collection sub_type of
              Some (O_cls c) \<Rightarrow> issubclass c base_type
            | _ \<Rightarrow> False)
      else (case sub_type of
              HClass c \<Rightarrow> issubclass c base_type
            | _ \<Rightarrow> False))"

definition is_tuple :: "hint \<Rightarrow> bool" where
  "is_tuple t = is_subclass t C_tuple"

definition is_type :: "hint \<Rightarrow> bool" where
  "is_type t =
     (case attr_origin t of
        None \<Rightarrow> False
      | Some orig \<Rightarrow> orig = O_cls C_type)"

fun is_dataclass :: "hint \<Rightarrow> bool" where
  "is_dataclass (HClass (C_user u)) = udataclass u"
| "is_dataclass t = False"

text \<open>
  \<open>typing.get_type_hints\<close> on a \<open>TypedDict\<close> class: with \<open>include_extras\<close> the
  \<open>Required\<close> wrappers are kept, without it they are removed.
\<close>

datatype annotation = A_Required hint | A_Plain hint

fun is_required :: "annotation \<Rightarrow> bool" where
  "is_required (A_Required t) = True"
| "is_required (A_Plain t) = False"

fun td_fields :: "hint \<Rightarrow> (string \<times> bool \<times> hint) list" where
  "td_fields (HTypedDict n tot fs) = fs"
| "td_fields (HDerivedTypedDict n tot fs) = fs"
| "td_fields t = []"

fun td_total :: "hint \<Rightarrow> bool" where
  "td_total (HTypedDict n tot fs) = tot"
| "td_total (HDerivedTypedDict n tot fs) = tot"
| "td_total t = False"

definition get_type_hints_extras :: "hint \<Rightarrow> (string \<times> annotation) list" where
  "get_type_hints_extras t =
     map (\<lambda>(k, r, h). (k, if r then A_Required h else A_Plain h)) (td_fields t)"

definition get_type_hints :: "hint \<Rightarrow> (string \<times> hint) list" where
  "get_type_hints t = map (\<lambda>(k, r, h). (k, h)) (td_fields t)"

subsection \<open>Class checks against an annotation object\<close>

text \<open>Python's lazy \<open>any\<close>, \<open>all\<close> and \<open>and\<close> over results that may be exceptions.\<close>

fun any_e :: "(error + bool) list \<Rightarrow> error + bool" where
  "any_e [] = Inr False"
| "any_e (Inl e # rs) = Inl e"
| "any_e (Inr b # rs) = (if b then Inr True else any_e rs)"

fun all_e :: "(error + bool) list \<Rightarrow> error + bool" where
  "all_e [] = Inr True"
| "all_e (Inl e # rs) = Inl e"
| "all_e (Inr b # rs) = (if b then all_e rs else Inr False)"

fun and_e :: "(error + bool) \<Rightarrow> (error + bool) \<Rightarrow> error + bool" where
  "and_e (Inl e) r = Inl e"
| "and_e (Inr b) r = (if b then r else Inr False)"

text \<open>
  \<open>issubclass(c, t)\<close> for a class \<open>c\<close> and an annotation object \<open>t\<close>: a class or an
  unsubscripted alias answers; \<open>Any\<close> is a class nothing derives from; a \<open>Union\<close> asks
  its members in turn; the empty tuple is an empty choice; anything else raises, among
  them every \<open>TypedDict\<close> class and every \<open>Protocol\<close> class that is not runtime
  checkable.
\<close>

fun py_issubclass :: "cls \<Rightarrow> hint \<Rightarrow> error + bool" where
  "py_issubclass c (HClass b) = Inr (issubclass c b)"
| "py_issubclass c (HBare b) = Inr (issubclass c b)"
| "py_issubclass c HAny = Inr False"
| "py_issubclass c (HUnion ts) = any_e (map (py_issubclass c) ts)"
| "py_issubclass c (HConst k) = (if k = KEmptyTuple then Inr False else Inl TypeError)"
| "py_issubclass c t = Inl TypeError"

text \<open>\<open>isinstance(v, t)\<close> for a value and an annotation object.\<close>

fun py_isinstance :: "pyval \<Rightarrow> hint \<Rightarrow> error + bool" where
  "py_isinstance v (HClass c) = Inr (isinstance v c)"
| "py_isinstance v (HBare c) = Inr (isinstance v c)"
| "py_isinstance v (HUnion ts) = py_issubclass (type_of v) (HUnion ts)"
| "py_isinstance v (HConst k) = (if k = KEmptyTuple then Inr False else Inl TypeError)"
| "py_isinstance v t = Inl TypeError"

text \<open>\<open>value in generic\<close>: identity or equality with one of the entries.\<close>

fun entry_eq :: "hint \<Rightarrow> pyval \<Rightarrow> bool" where
  "entry_eq (HConst k) v = py_eq k v"
| "entry_eq (HClass c) v = (v = PClass c)"
| "entry_eq t v = False"

definition py_in :: "pyval \<Rightarrow> hint list \<Rightarrow> bool" where
  "py_in v generic = list_ex (\<lambda>g. entry_eq g v) generic"

text \<open>
  \<open>==\<close> between two annotation objects, which decides whether a dictionary keyed by them
  has an entry: unions compare as sets of members, literals as sets of values with their
  types, generic aliases by origin and arguments, everything else by identity.
\<close>

fun hint_eq :: "hint \<Rightarrow> hint \<Rightarrow> bool" where
  "hint_eq (HUnion as) (HUnion bs) =
     (list_all (\<lambda>a. list_ex (\<lambda>b. hint_eq a b) bs) as \<and>
      list_all (\<lambda>b. list_ex (\<lambda>a. hint_eq a b) as) bs)"
| "hint_eq (HAlias c as) (HAlias d bs) = (c = d \<and> list_all2 hint_eq as bs)"
| "hint_eq (HLiteral ks) (HLiteral ls) = (set ks = set ls)"
| "hint_eq (HConst k) (HConst l) = const_eq k l"
| "hint_eq s t = (s = t)"

section \<open>Compiled predicates and the cache\<close>

text \<open>
  A compiled predicate maps a value to a verdict or raises.  \<open>VALIDATORS\<close> is a dictionary
  keyed by annotation objects; it is modelled by the list of its entries, newest first, and
  a key is found through \<open>hint_eq\<close>.
\<close>

type_synonym pred = "pyval \<Rightarrow> error + bool"
type_synonym cache = "(hint \<times> pred) list"

fun cache_get :: "cache \<Rightarrow> hint \<Rightarrow> pred option" where
  "cache_get [] t = None"
| "cache_get ((k, p) # c) t = (if hint_eq k t then Some p else cache_get c t)"

text \<open>
  One definition per lambda that the source returns (lines of \<open>validate.py\<close>):
  \<open>pred_any\<close> 133; \<open>pred_typeddict_total\<close> 115--117; \<open>pred_typeddict_open\<close> 119--121;
  \<open>pred_literal\<close> 142; \<open>pred_origin\<close> 150; \<open>pred_mapping\<close> 156;
  \<open>pred_tuple_empty\<close> 160; \<open>pred_items\<close> 163 and 171; \<open>pred_tuple_fixed\<close> 165--167;
  \<open>pred_type\<close> 176; \<open>pred_type_sub\<close> 178; \<open>pred_isinstance\<close> 181 and 188;
  \<open>pred_complex\<close> 184; \<open>pred_float\<close> 186.  \<open>key_get\<close> is \<open>k in validators\<close>
  followed by \<open>validators[k]\<close>: only a string key can name a field.
\<close>

definition pred_any :: "pred list \<Rightarrow> pred" where
  "pred_any validators = (\<lambda>value. any_e (map (\<lambda>v. v value) validators))"

fun key_get :: "(string \<times> pred) list \<Rightarrow> pyval \<Rightarrow> pred option" where
  "key_get validators (PStr s) = map_of validators s"
| "key_get validators k = None"

definition pred_typeddict_total :: "string list \<Rightarrow> (string \<times> pred) list \<Rightarrow> pred" where
  "pred_typeddict_total required_keys validators =
     (\<lambda>value.
        if isinstance value Abc_Mapping \<and> list_all (\<lambda>k. py_has_key value k) required_keys
        then (case py_items value of
                Inl e \<Rightarrow> Inl e
              | Inr kvs \<Rightarrow>
                  all_e (map (\<lambda>(k, v). case key_get validators k of
                                          None \<Rightarrow> Inr False
                                        | Some f \<Rightarrow> f v) kvs))
        else Inr False)"

definition pred_typeddict_open :: "string list \<Rightarrow> (string \<times> pred) list \<Rightarrow> pred" where
  "pred_typeddict_open required_keys validators =
     (\<lambda>value.
        if isinstance value Abc_Mapping \<and> list_all (\<lambda>k. py_has_key value k) required_keys
        then (case py_items value of
                Inl e \<Rightarrow> Inl e
              | Inr kvs \<Rightarrow>
                  all_e (map (\<lambda>(k, v). case key_get validators k of
                                          None \<Rightarrow> Inr True
                                        | Some f \<Rightarrow> f v) kvs))
        else Inr False)"

definition pred_literal :: "hint list \<Rightarrow> pred" where
  "pred_literal generic = (\<lambda>value. Inr (py_in value generic))"

definition pred_origin :: "cls \<Rightarrow> pred" where
  "pred_origin orig = (\<lambda>value. Inr (isinstance value orig))"

definition pred_mapping :: "cls \<Rightarrow> pred \<Rightarrow> pred \<Rightarrow> pred" where
  "pred_mapping orig kv vv =
     (\<lambda>value.
        if isinstance value orig
        then (case py_items value of
                Inl e \<Rightarrow> Inl e
              | Inr kvs \<Rightarrow> all_e (map (\<lambda>(k, v). and_e (kv k) (vv v)) kvs))
        else Inr False)"

definition pred_tuple_empty :: "cls \<Rightarrow> pred" where
  "pred_tuple_empty orig = (\<lambda>value. Inr (isinstance value orig \<and> \<not> py_truth value))"

definition pred_items :: "cls \<Rightarrow> pred \<Rightarrow> pred" where
  "pred_items orig v =
     (\<lambda>value.
        if isinstance value orig
        then (case py_iter value of
                Inl e \<Rightarrow> Inl e
              | Inr items \<Rightarrow> all_e (map v items))
        else Inr False)"

definition pred_tuple_fixed :: "cls \<Rightarrow> pred list \<Rightarrow> pred" where
  "pred_tuple_fixed orig validators =
     (\<lambda>value.
        if isinstance value orig
        then (case py_len value of
                Inl e \<Rightarrow> Inl e
              | Inr n \<Rightarrow>
                  if n = length validators
                  then (case py_iter value of
                          Inl e \<Rightarrow> Inl e
                        | Inr items \<Rightarrow> all_e (map (\<lambda>(item, v). v item) (zip items validators)))
                  else Inr False)
        else Inr False)"

definition pred_type :: pred where
  "pred_type = (\<lambda>value. Inr (isinstance value C_type))"

definition pred_type_sub :: "hint \<Rightarrow> pred" where
  "pred_type_sub bound =
     (\<lambda>value.
        if isinstance value C_type
        then (case value of
                PClass c \<Rightarrow> py_issubclass c bound
              | _ \<Rightarrow> Inl TypeError)
        else Inr False)"

definition pred_isinstance :: "hint \<Rightarrow> pred" where
  "pred_isinstance t = (\<lambda>value. py_isinstance value t)"

definition pred_complex :: pred where
  "pred_complex =
     (\<lambda>value. Inr (isinstance value C_int \<or> isinstance value C_float \<or> isinstance value C_complex))"

definition pred_float :: pred where
  "pred_float = (\<lambda>value. Inr (isinstance value C_int \<or> isinstance value C_float))"


section \<open>\<open>validator\<close>, \<open>get_validator\<close> and \<open>typeddict_validator\<close>\<close>

text \<open>
  A measure for the recursion of the compiler: every annotation that \<open>get_validator\<close>
  passes on to \<open>validator\<close> weighs less than the one it was given.
\<close>

fun weight :: "hint \<Rightarrow> nat" where
  "weight (HUnion ts) = 3 + (sum_list (map weight ts) + length ts)"
| "weight (HAlias c ts) = 3 + (sum_list (map weight ts) + length ts)"
| "weight (HTypedDict n tot fs) = 1 + (sum_list (map (\<lambda>f. weight (snd (snd f))) fs) + length fs)"
| "weight (HDerivedTypedDict n tot fs) =
     1 + (sum_list (map (\<lambda>f. weight (snd (snd f))) fs) + length fs)"
| "weight (HNewType n t) = 1 + weight t"
| "weight (HInitVar i t) = 1 + weight t"
| "weight (HLiteral ks) = 2"
| "weight (HBare c) = 2"
| "weight (HClass c) = 2"
| "weight (HProtocol n) = 2"
| "weight HAny = 1"
| "weight (HConst k) = 1"

definition weights :: "hint list \<Rightarrow> nat" where
  "weights ts = sum_list (map weight ts) + length ts"

definition fweights :: "(string \<times> hint) list \<Rightarrow> nat" where
  "fweights fs = sum_list (map (\<lambda>f. weight (snd f)) fs) + length fs"


text \<open>
  The compiler threads the cache through every call.  \<open>validator_list\<close> is the list
  comprehension \<open>[validator(t) for t in ...]\<close>, \<open>validator_dict\<close> the dictionary
  comprehension of \<open>typeddict_validator\<close>.  After a miss the entry is written and read
  back at once, which yields the predicate just built.
\<close>

function validator :: "hint \<Rightarrow> cache \<Rightarrow> (error + pred) \<times> cache"
  and get_validator :: "hint \<Rightarrow> cache \<Rightarrow> (error + pred) \<times> cache"
  and typeddict_validator :: "hint \<Rightarrow> cache \<Rightarrow> (error + pred) \<times> cache"
  and validator_list :: "hint list \<Rightarrow> cache \<Rightarrow> (error + pred list) \<times> cache"
  and validator_dict :: "(string \<times> hint) list \<Rightarrow> cache \<Rightarrow> (error + (string \<times> pred) list) \<times> cache"
where
  "validator t c =
     (case cache_get c t of
        Some p \<Rightarrow> (Inr p, c)
      | None \<Rightarrow>
          (case get_validator t c of
             (Inl e, c') \<Rightarrow> (Inl e, c')
           | (Inr p, c') \<Rightarrow> (Inr p, (t, p) # c')))"
| "get_validator t c =
     (if t = HAny then (Inr (\<lambda>value. Inr True), c)
      else if is_union t then
        (case validator_list (extract_generic t []) c of
           (Inl e, c') \<Rightarrow> (Inl e, c')
         | (Inr validators, c') \<Rightarrow> (Inr (pred_any validators), c'))
      else if is_typed_dict t then typeddict_validator t c
      else if is_new_type t then
        (case extract_new_type t of
           None \<Rightarrow> (Inl AttributeError, c)
         | Some s \<Rightarrow> validator s c)
      else if is_literal t then (Inr (pred_literal (extract_generic t [])), c)
      else if is_init_var t then validator (extract_init_var t) c
      else if is_generic_collection t then
        (case extract_origin_collection t of
           Some (O_cls orig) \<Rightarrow>
             (let generic = extract_generic t [] in
              if generic = [] then (Inr (pred_origin orig), c)
              else if issubclass orig Abc_Mapping then
                (case extract_generic t [HAny, HAny] of
                   [key_type, val_type] \<Rightarrow>
                     (case validator key_type c of
                        (Inl e, c1) \<Rightarrow> (Inl e, c1)
                      | (Inr kv, c1) \<Rightarrow>
                          (case validator val_type c1 of
                             (Inl e, c2) \<Rightarrow> (Inl e, c2)
                           | (Inr vv, c2) \<Rightarrow> (Inr (pred_mapping orig kv vv), c2)))
                 | _ \<Rightarrow> (Inl ValueError, c))
              else if is_tuple t then
                (if length generic = 1 \<and> hint_eq (generic ! 0) (HConst KEmptyTuple)
                 then (Inr (pred_tuple_empty orig), c)
                 else if length generic = 2 \<and> generic ! 1 = HConst KEllipsis then
                   (case validator (generic ! 0) c of
                      (Inl e, c') \<Rightarrow> (Inl e, c')
                    | (Inr v, c') \<Rightarrow> (Inr (pred_items orig v), c'))
                 else
                   (case validator_list generic c of
                      (Inl e, c') \<Rightarrow> (Inl e, c')
                    | (Inr validators, c') \<Rightarrow> (Inr (pred_tuple_fixed orig validators), c')))
              else
                (case validator (hd (extract_generic t [HAny])) c of
                   (Inl e, c') \<Rightarrow> (Inl e, c')
                 | (Inr v, c') \<Rightarrow> (Inr (pred_items orig v), c')))
         | _ \<Rightarrow> (Inl TypeError, c))
      else if is_type t then
        (let generic = extract_generic t [] in
         if generic = [] then (Inr pred_type, c)
         else (Inr (pred_type_sub (generic ! 0)), c))
      else if is_dataclass t then (Inr (pred_isinstance t), c)
      else if t = HClass C_complex then (Inr pred_complex, c)
      else if t = HClass C_float then (Inr pred_float, c)
      else (Inr (pred_isinstance t), c))"
| "typeddict_validator t c =
     (let required_keys = map fst (filter (\<lambda>(k, v). is_required v) (get_type_hints_extras t));
          hints = get_type_hints t
      in case validator_dict hints c of
           (Inl e, c') \<Rightarrow> (Inl e, c')
         | (Inr validators, c') \<Rightarrow>
             if td_total t
             then (Inr (pred_typeddict_total required_keys validators), c')
             else (Inr (pred_typeddict_open required_keys validators), c'))"
| "validator_list [] c = (Inr [], c)"
| "validator_list (t # ts) c =
     (case validator t c of
        (Inl e, c') \<Rightarrow> (Inl e, c')
      | (Inr v, c') \<Rightarrow>
          (case validator_list ts c' of
             (Inl e, c'') \<Rightarrow> (Inl e, c'')
           | (Inr vs, c'') \<Rightarrow> (Inr (v # vs), c'')))"
| "validator_dict [] c = (Inr [], c)"
| "validator_dict ((k, hint) # hints) c =
     (case validator hint c of
        (Inl e, c') \<Rightarrow> (Inl e, c')
      | (Inr v, c') \<Rightarrow>
          (case validator_dict hints c' of
             (Inl e, c'') \<Rightarrow> (Inl e, c'')
           | (Inr vs, c'') \<Rightarrow> (Inr ((k, v) # vs), c'')))"
  by pat_completeness auto



termination
proof (relation "measure (case_sum
          (case_sum (\<lambda>(t, c). 3 * weight t + 2) (\<lambda>(t, c). 3 * weight t + 1))
          (case_sum (\<lambda>(t, c). 3 * weight t)
          (case_sum (\<lambda>(ts, c). 3 * weights ts + 2)
                    (\<lambda>(fs, c). 3 * fweights fs + 2))))", goal_cases)
  have cons [simp]: "weights (t # ts) = Suc (weight t + weights ts)" for t ts
    by (simp add: weights_def)
  have fcons [simp]: "fweights ((k, t) # fs) = Suc (weight t + fweights fs)" for k t fs
    by (simp add: fweights_def)
  have nil [simp]: "weights [] = 0" "fweights [] = 0"
    by (simp_all add: weights_def fweights_def)
  have fold [simp]: "sum_list (map weight ts) + length ts = weights ts" for ts
    by (simp add: weights_def)
  have pos: "0 < weight t" for t
    by (cases t) simp_all
  have mem: "x \<in> set ts \<Longrightarrow> weight x < Suc (weights ts)" for x ts
    by (induction ts) auto
  have lst: "is_union t \<or> is_generic_collection t \<Longrightarrow>
      weights (extract_generic t []) < weight t" for t
    by (cases t)
       (auto simp: is_union_def is_generic_collection_def is_generic_def extract_generic_def
          attr_special_def isinstance_UnionType_def extract_origin_collection_def attr_extra_def)
  have elem: "is_generic_collection t \<Longrightarrow> x \<in> set (extract_generic t d) \<Longrightarrow>
      \<forall>y\<in>set d. weight y \<le> 1 \<Longrightarrow> weight x < weight t" for t x d
    by (cases t)
       (auto simp: is_generic_collection_def is_generic_def extract_generic_def
          attr_special_def extract_origin_collection_def attr_extra_def
          dest: mem split: if_splits)
  have new: "extract_new_type t = Some s \<Longrightarrow> weight s < weight t" for t s
    by (cases t) (auto simp: extract_new_type_def)
  have init: "is_init_var t \<Longrightarrow> weight (extract_init_var t) < weight t" for t
    by (cases t) auto
  have fmap: "fweights (map (\<lambda>(k, r, h). (k, h)) fs)
      = sum_list (map (\<lambda>f. weight (snd (snd f))) fs) + length fs" for fs
    by (induction fs) (auto simp: fweights_def)
  have flds: "fweights (get_type_hints t) < weight t" for t
    using pos[of t] by (cases t) (simp_all add: get_type_hints_def fmap)
  have nonempty: "d \<noteq> [] \<Longrightarrow> extract_generic t d \<noteq> []" for t d
    by (auto simp: extract_generic_def split: option.splits)
  have pair: "is_generic_collection t \<Longrightarrow> extract_generic t [HAny, HAny] = [a, b] \<Longrightarrow>
      weight a < weight t \<and> weight b < weight t" for t a b
    using elem[of t a "[HAny, HAny]"] elem[of t b "[HAny, HAny]"] by simp
  have nth0: "is_generic_collection t \<Longrightarrow> length (extract_generic t []) = 2 \<Longrightarrow>
      weight (extract_generic t [] ! 0) < weight t" for t
    using elem[of t "extract_generic t [] ! 0" "[]"]
    by (cases "extract_generic t []") auto
  have first: "is_generic_collection t \<Longrightarrow> weight (hd (extract_generic t [HAny])) < weight t"
    for t
    using elem[of t "hd (extract_generic t [HAny])" "[HAny]"] nonempty[of "[HAny]" t] by simp
  {
    case 1 show ?case by simp
  next
    case 2 then show ?case by simp
  next
    case (3 t c) then show ?case using lst[of t] by simp
  next
    case 4 then show ?case by simp
  next
    case (5 t c) then show ?case by (auto dest: new)
  next
    case (6 t c) then show ?case using init[of t] by simp
  next
    case (7 t c) then show ?case by (auto dest: pair)
  next
    case (8 t c) then show ?case by (auto dest: pair)
  next
    case (9 t c) then show ?case using nth0[of t] by simp
  next
    case (10 t c) then show ?case using lst[of t] by simp
  next
    case (11 t c) then show ?case using first[of t] by simp
  next
    case (12 t c) then show ?case using flds[of t] by simp
  next
    case 13 then show ?case by simp
  next
    case 14 then show ?case by simp
  next
    case 15 then show ?case by simp
  next
    case 16 then show ?case by simp
  }
qed

text \<open>The entry point: compile (or fetch) the predicate and apply it.\<close>

definition validate :: "cache \<Rightarrow> hint \<Rightarrow> pyval \<Rightarrow> error + bool" where
  "validate c t value =
     (case fst (validator t c) of
        Inl e \<Rightarrow> Inl e
      | Inr p \<Rightarrow> p value)"

text \<open>
  \<open>dataclass_field_validators\<close>: the table of compiled predicates for the fields of a
  dataclass; \<open>hints\<close> is what \<open>get_type_hints\<close> returns for the class.
\<close>

definition dataclass_field_validators ::
    "(string \<times> hint) list \<Rightarrow> cache \<Rightarrow> (error + (string \<times> pred) list) \<times> cache" where
  "dataclass_field_validators hints c = validator_dict hints c"

section \<open>Well-formed annotations and what they denote\<close>

text \<open>
  The bound of a \<open>Type[...]\<close> annotation for which \<open>issubclass\<close> answers: a class,
  an unsubscripted alias or \<open>Any\<close>.
\<close>

fun class_like :: "hint \<Rightarrow> bool" where
  "class_like (HClass c) = True"
| "class_like (HBare c) = True"
| "class_like HAny = True"
| "class_like t = False"

text \<open>
  The annotations on which validation yields a verdict: every \<open>Type[...]\<close> is bound by
  something class-like, a mapping alias has two arguments, a tuple alias is \<open>Tuple[()]\<close>,
  \<open>Tuple[t, ...]\<close> or a list of element annotations, any other collection alias has
  one argument, and \<open>InitVar\<close> is parameterised.  Constants are no annotations, and a
  \<open>TypedDict\<close> class that \<open>is_typed_dict\<close> does not recognise or a \<open>Protocol\<close>
  class that is not runtime checkable ends in an \<open>isinstance\<close> that raises.
\<close>

fun well_formed :: "hint \<Rightarrow> bool" where
  "well_formed HAny = True"
| "well_formed (HUnion ts) = (ts \<noteq> [] \<and> list_all well_formed ts)"
| "well_formed (HTypedDict n tot fs) = list_all (\<lambda>f. well_formed (snd (snd f))) fs"
| "well_formed (HDerivedTypedDict n tot fs) = False"
| "well_formed (HNewType n t) = well_formed t"
| "well_formed (HLiteral ks) = True"
| "well_formed (HInitVar i t) = well_formed t"
| "well_formed (HAlias c ts) =
     (if c = C_type then length ts = 1 \<and> class_like (hd ts)
      else if issubclass c Abc_Mapping then length ts = 2 \<and> list_all well_formed ts
      else if issubclass c C_tuple then
        (ts = [] \<or> ts = [HConst KEmptyTuple]
         \<or> (length ts = 2 \<and> ts ! 1 = HConst KEllipsis \<and> hd (map well_formed ts))
         \<or> list_all well_formed ts)
      else if issubclass c Abc_Collection then length ts = 1 \<and> list_all well_formed ts
      else False)"
| "well_formed (HBare c) = True"
| "well_formed (HClass c) = (c \<noteq> C_InitVar)"
| "well_formed (HProtocol n) = False"
| "well_formed (HConst k) = False"

text \<open>
  The predicate that an uncached compilation of a well-formed annotation builds, by the
  shape of the annotation.  Lemma \<open>validator_denotation\<close> below shows that
  \<open>validator\<close> returns exactly this predicate, whatever the cache holds.
\<close>

fun denotation :: "hint \<Rightarrow> pred" where
  "denotation HAny = (\<lambda>value. Inr True)"
| "denotation (HUnion ts) = pred_any (map denotation ts)"
| "denotation (HTypedDict n tot fs) =
     (let required_keys = map fst (filter (\<lambda>f. fst (snd f)) fs);
          validators = map (\<lambda>f. (fst f, denotation (snd (snd f)))) fs
      in if tot then pred_typeddict_total required_keys validators
         else pred_typeddict_open required_keys validators)"
| "denotation (HNewType n t) = denotation t"
| "denotation (HLiteral ks) = pred_literal (if ks = [] then [HConst KEmptyTuple] else map HConst ks)"
| "denotation (HInitVar i t) = denotation t"
| "denotation (HAlias c ts) =
     (let vs = map denotation ts in
      if c = C_type then pred_type_sub (hd ts)
      else if issubclass c Abc_Mapping then pred_mapping c (vs ! 0) (vs ! 1)
      else if issubclass c C_tuple then
        (if ts = [] \<or> ts = [HConst KEmptyTuple] then pred_tuple_empty c
         else if length ts = 2 \<and> ts ! 1 = HConst KEllipsis then pred_items c (vs ! 0)
         else pred_tuple_fixed c vs)
      else pred_items c (hd vs))"
| "denotation (HBare c) =
     (if issubclass c Abc_Collection then pred_origin c
      else if c = C_type then pred_type
      else pred_isinstance (HBare c))"
| "denotation (HClass c) =
     (if c = C_complex then pred_complex
      else if c = C_float then pred_float
      else pred_isinstance (HClass c))"
| "denotation (HDerivedTypedDict n tot fs) = pred_isinstance (HDerivedTypedDict n tot fs)"
| "denotation (HProtocol n) = pred_isinstance (HProtocol n)"
| "denotation (HConst k) = pred_isinstance (HConst k)"

text \<open>A predicate that answers on every value.\<close>

definition never_raises :: "pred \<Rightarrow> bool" where
  "never_raises p = (\<forall>value. \<exists>b. p value = Inr b)"

text \<open>
  The invariant of \<open>VALIDATORS\<close>: a well-formed key is mapped to its denotation.  The
  caches that can arise are those built from the empty dictionary by calls of
  \<open>validator\<close>.
\<close>

definition cache_ok :: "cache \<Rightarrow> bool" where
  "cache_ok c = (\<forall>(k, p) \<in> set c. well_formed k \<longrightarrow> p = denotation k)"

inductive reachable :: "cache \<Rightarrow> bool" where
  initial: "reachable []"
| compiled: "reachable c \<Longrightarrow> reachable (snd (validator t c))"



text \<open>What one call of \<open>validator\<close> has to establish.\<close>

definition good :: "hint \<Rightarrow> bool" where
  "good t = (\<forall>c. cache_ok c \<longrightarrow>
      cache_ok (snd (validator t c)) \<and>
      (well_formed t \<longrightarrow> fst (validator t c) = Inr (denotation t)))"


section \<open>Dispatch: which branch of \<open>get_validator\<close> an annotation takes\<close>

declare validator.simps [simp del] get_validator.simps [simp del] typeddict_validator.simps [simp del]

lemmas cls_defs = is_union_def is_generic_def is_typed_dict_def is_new_type_def is_literal_def
  is_generic_collection_def extract_origin_collection_def attr_extra_def attr_special_def
  extract_generic_def isinstance_UnionType_def is_type_def is_tuple_def is_subclass_def
  extract_new_type_def

lemma get_validator_HAny: "get_validator HAny c = (Inr (\<lambda>value. Inr True), c)"
  by (simp add: get_validator.simps)

lemma get_validator_HUnion:
  "get_validator (HUnion ts) c =
     (case validator_list (if ts = [] then [HConst KEmptyTuple] else ts) c of
        (Inl e, c') \<Rightarrow> (Inl e, c')
      | (Inr validators, c') \<Rightarrow> (Inr (pred_any validators), c'))"
  by (simp add: get_validator.simps cls_defs)

lemma get_validator_HTypedDict:
  "get_validator (HTypedDict n tot fs) c = typeddict_validator (HTypedDict n tot fs) c"
  by (simp add: get_validator.simps cls_defs)

lemma get_validator_HNewType: "get_validator (HNewType n t) c = validator t c"
  by (simp add: get_validator.simps cls_defs)

lemma get_validator_HLiteral:
  "get_validator (HLiteral ks) c =
     (Inr (pred_literal (if ks = [] then [HConst KEmptyTuple] else map HConst ks)), c)"
  by (simp add: get_validator.simps cls_defs)

lemma get_validator_HInitVar: "get_validator (HInitVar i t) c = validator t c"
  by (simp add: get_validator.simps cls_defs)

lemma get_validator_HBare:
  "get_validator (HBare c0) c =
     (if issubclass c0 Abc_Collection then (Inr (pred_origin c0), c)
      else if c0 = C_type then (Inr pred_type, c)
      else (Inr (pred_isinstance (HBare c0)), c))"
  by (simp add: get_validator.simps cls_defs)

lemma get_validator_HClass:
  "get_validator (HClass c0) c =
     (if c0 = C_InitVar then validator (HConst KSlot) c
      else if c0 = C_complex then (Inr pred_complex, c)
      else if c0 = C_float then (Inr pred_float, c)
      else (Inr (pred_isinstance (HClass c0)), c))"
  by (cases c0) (simp_all add: get_validator.simps cls_defs)

lemma get_validator_HConst: "get_validator (HConst k) c = (Inr (pred_isinstance (HConst k)), c)"
  by (simp add: get_validator.simps cls_defs)

lemma get_validator_HDerivedTypedDict:
  "get_validator (HDerivedTypedDict n tot fs) c
     = (Inr (pred_isinstance (HDerivedTypedDict n tot fs)), c)"
  by (simp add: get_validator.simps cls_defs)

lemma get_validator_HProtocol:
  "get_validator (HProtocol n) c = (Inr (pred_isinstance (HProtocol n)), c)"
  by (simp add: get_validator.simps cls_defs)

lemma get_validator_Type:
  "get_validator (HAlias C_type ts) c =
     (Inr (pred_type_sub (if ts = [] then HConst KEmptyTuple else hd ts)), c)"
  by (cases ts) (simp_all add: get_validator.simps cls_defs issubclass_def)

lemma issubclass_tuple: "issubclass c0 C_tuple = (c0 = C_tuple)"
  by (auto simp: issubclass_def)

lemma issubclass_mapping: "issubclass c0 Abc_Mapping = (c0 = Abc_Mapping \<or> c0 = C_dict)"
  by (auto simp: issubclass_def)

lemma get_validator_Mapping:
  "issubclass c0 Abc_Mapping \<Longrightarrow>
   get_validator (HAlias c0 [kt, vt]) c =
     (case validator kt c of
        (Inl e, c1) \<Rightarrow> (Inl e, c1)
      | (Inr kv, c1) \<Rightarrow>
          (case validator vt c1 of
             (Inl e, c2) \<Rightarrow> (Inl e, c2)
           | (Inr vv, c2) \<Rightarrow> (Inr (pred_mapping c0 kv vv), c2)))"
  by (auto simp add: get_validator.simps cls_defs issubclass_mapping issubclass_def)


lemma hint_eq_empty_tuple: "hint_eq x (HConst KEmptyTuple) = (x = HConst KEmptyTuple)"
proof (cases x)
  case (HConst k)
  then show ?thesis by (cases k) auto
qed simp_all

lemma get_validator_Mapping_arity:
  assumes "issubclass c0 Abc_Mapping" "length ts \<noteq> 2"
  shows "get_validator (HAlias c0 ts) c = (Inl ValueError, c)"
proof -
  from assms(1) have c0: "c0 = Abc_Mapping \<or> c0 = C_dict"
    by (simp add: issubclass_mapping)
  have coll: "issubclass c0 Abc_Collection" "issubclass c0 Abc_Mapping"
    using c0 by (auto simp: issubclass_def)
  from assms(2) consider "ts = []" | a where "ts = [a]" | a b d ds where "ts = a # b # d # ds"
    by (cases ts; cases "tl ts"; cases "tl (tl ts)") auto
  then show ?thesis
    using c0 by cases (auto simp add: get_validator.simps cls_defs coll)
qed

lemma get_validator_Tuple:
  "get_validator (HAlias C_tuple ts) c =
     (if ts = [] \<or> ts = [HConst KEmptyTuple] then (Inr (pred_tuple_empty C_tuple), c)
      else if length ts = 2 \<and> ts ! 1 = HConst KEllipsis then
        (case validator (ts ! 0) c of
           (Inl e, c') \<Rightarrow> (Inl e, c')
         | (Inr v, c') \<Rightarrow> (Inr (pred_items C_tuple v), c'))
      else
        (case validator_list ts c of
           (Inl e, c') \<Rightarrow> (Inl e, c')
         | (Inr validators, c') \<Rightarrow> (Inr (pred_tuple_fixed C_tuple validators), c')))"
proof (cases "ts = []")
  case True
  then show ?thesis
    by (simp add: get_validator.simps cls_defs issubclass_def)
next
  case False
  have "(length ts = 1 \<and> ts ! 0 = HConst KEmptyTuple) = (ts = [HConst KEmptyTuple])"
    by (cases ts) auto
  with False show ?thesis
    by (simp add: get_validator.simps cls_defs issubclass_def hint_eq_empty_tuple Let_def)
qed

lemma get_validator_Collection:
  "issubclass c0 Abc_Collection \<Longrightarrow> \<not> issubclass c0 Abc_Mapping \<Longrightarrow> c0 \<noteq> C_tuple \<Longrightarrow>
   get_validator (HAlias c0 ts) c =
     (case validator (if ts = [] then HConst KEmptyTuple else hd ts) c of
        (Inl e, c') \<Rightarrow> (Inl e, c')
      | (Inr v, c') \<Rightarrow> (Inr (pred_items c0 v), c'))"
  by (cases "c0 = C_type")
     (auto simp add: get_validator.simps cls_defs issubclass_tuple Let_def issubclass_def)

lemma get_validator_other_alias:
  "\<not> issubclass c0 Abc_Collection \<Longrightarrow> c0 \<noteq> C_type \<Longrightarrow>
   get_validator (HAlias c0 ts) c = (Inr (pred_isinstance (HAlias c0 ts)), c)"
  by (simp add: get_validator.simps cls_defs)

lemma any_e_map:
  "\<forall>x\<in>set xs. \<exists>b. f x = Inr b \<Longrightarrow> any_e (map f xs) = Inr (\<exists>x\<in>set xs. f x = Inr True)"
proof (induction xs)
  case Nil
  then show ?case by simp
next
  case (Cons x xs)
  then obtain b where b: "f x = Inr b" by auto
  from Cons have "any_e (map f xs) = Inr (\<exists>x\<in>set xs. f x = Inr True)" by simp
  with b show ?case by (cases b) simp_all
qed

lemma all_e_map:
  "\<forall>x\<in>set xs. \<exists>b. f x = Inr b \<Longrightarrow> all_e (map f xs) = Inr (\<forall>x\<in>set xs. f x = Inr True)"
proof (induction xs)
  case Nil
  then show ?case by simp
next
  case (Cons x xs)
  then obtain b where b: "f x = Inr b" by auto
  from Cons have "all_e (map f xs) = Inr (\<forall>x\<in>set xs. f x = Inr True)" by simp
  with b show ?case by (cases b) simp_all
qed

lemma isinstance_mapping: "isinstance v Abc_Mapping = (\<exists>kvs. v = PDict kvs)"
  by (cases v) (auto simp: isinstance_def issubclass_def)

lemma isinstance_dict: "isinstance v C_dict = (\<exists>kvs. v = PDict kvs)"
  by (cases v) (auto simp: isinstance_def issubclass_def)

lemma isinstance_tuple: "isinstance v C_tuple = (\<exists>xs. v = PTuple xs)"
  by (cases v) (auto simp: isinstance_def issubclass_def)

lemma isinstance_type: "isinstance v C_type = (\<exists>c. v = PClass c)"
  by (cases v) (auto simp: isinstance_def issubclass_def)

lemma isinstance_collection_iter:
  "issubclass c0 Abc_Collection \<Longrightarrow> isinstance v c0 \<Longrightarrow> \<exists>xs. py_iter v = Inr xs"
  by (cases v; cases c0) (simp_all add: isinstance_def issubclass_def)

lemma class_like_issubclass: "class_like b \<Longrightarrow> \<exists>r. py_issubclass c0 b = Inr r"
  by (cases b) auto


lemma never_raisesD: "never_raises p \<Longrightarrow> \<exists>b. p x = Inr b"
  by (simp add: never_raises_def)

lemma never_raises_cases: "never_raises p \<Longrightarrow> p x = Inr True \<or> p x = Inr False"
  using never_raisesD[of p x] by auto

lemma pred_any_char:
  assumes "\<forall>p\<in>set ps. never_raises p"
  shows "pred_any ps v = Inr (\<exists>p\<in>set ps. p v = Inr True)"
proof -
  have "\<forall>p\<in>set ps. \<exists>b. p v = Inr b"
    using assms by (auto dest: never_raisesD)
  from any_e_map[of ps "\<lambda>p. p v", OF this] show ?thesis
    by (simp add: pred_any_def)
qed

lemma pred_tuple_empty_char: "pred_tuple_empty C_tuple v = Inr (v = PTuple [])"
  by (cases v) (simp_all add: pred_tuple_empty_def isinstance_def issubclass_def)

lemma pred_items_char:
  assumes "issubclass c0 Abc_Collection" "never_raises p"
  shows "pred_items c0 p v =
     Inr (isinstance v c0 \<and> (\<exists>xs. py_iter v = Inr xs \<and> (\<forall>x\<in>set xs. p x = Inr True)))"
proof (cases "isinstance v c0")
  case False
  then show ?thesis by (simp add: pred_items_def)
next
  case True
  with assms(1) obtain xs where xs: "py_iter v = Inr xs"
    using isinstance_collection_iter by blast
  have "\<forall>x\<in>set xs. \<exists>b. p x = Inr b"
    using assms(2) by (simp add: never_raises_def)
  from all_e_map[OF this] True xs show ?thesis by (simp add: pred_items_def)
qed

lemma zip_all_nth:
  "length xs = length ps \<Longrightarrow>
   (\<forall>z\<in>set (zip xs ps). Q (fst z) (snd z)) = (\<forall>i<length ps. Q (xs ! i) (ps ! i))"
  by (simp add: set_zip) blast

lemma pred_tuple_fixed_char:
  assumes "\<forall>p\<in>set ps. never_raises p"
  shows "pred_tuple_fixed C_tuple ps v =
     Inr (\<exists>xs. v = PTuple xs \<and> length xs = length ps \<and>
              (\<forall>i<length ps. (ps ! i) (xs ! i) = Inr True))"
proof (cases "\<exists>xs. v = PTuple xs \<and> length xs = length ps")
  case False
  then show ?thesis
    by (cases v) (simp_all add: pred_tuple_fixed_def isinstance_def issubclass_def)
next
  case True
  then obtain xs where v: "v = PTuple xs" and len: "length xs = length ps" by blast
  let ?f = "\<lambda>z. (snd z) (fst z)"
  have tot: "\<forall>z\<in>set (zip xs ps). \<exists>b. ?f z = Inr b"
  proof
    fix z assume "z \<in> set (zip xs ps)"
    then have "(fst z, snd z) \<in> set (zip xs ps)" by simp
    then have "snd z \<in> set ps" by (rule set_zip_rightD)
    with assms show "\<exists>b. ?f z = Inr b" by (simp add: never_raises_def)
  qed
  have eq: "(\<lambda>(item, v). v item) = ?f" by (simp add: fun_eq_iff)
  have "all_e (map (\<lambda>(item, v). v item) (zip xs ps))
      = Inr (\<forall>z\<in>set (zip xs ps). (snd z) (fst z) = Inr True)"
    unfolding eq by (rule all_e_map[OF tot])
  also have "(\<forall>z\<in>set (zip xs ps). (snd z) (fst z) = Inr True)
      = (\<forall>i<length ps. (ps ! i) (xs ! i) = Inr True)"
    by (rule zip_all_nth[OF len, of "\<lambda>x p. p x = Inr True"])
  finally show ?thesis using v len
    by (simp add: pred_tuple_fixed_def isinstance_def issubclass_def)
qed

lemma pred_mapping_char:
  assumes "issubclass c0 Abc_Mapping" "never_raises kv" "never_raises vv"
  shows "pred_mapping c0 kv vv v =
     Inr (\<exists>kvs. v = PDict kvs \<and> (\<forall>z\<in>set kvs. kv (fst z) = Inr True \<and> vv (snd z) = Inr True))"
proof -
  have inst: "isinstance v c0 = (\<exists>kvs. v = PDict kvs)"
    using assms(1) by (auto simp: issubclass_mapping isinstance_mapping isinstance_dict)
  show ?thesis
  proof (cases "isinstance v c0")
    case False
    then show ?thesis using inst by (simp add: pred_mapping_def)
  next
    case True
    then obtain kvs where v: "v = PDict kvs" using inst by blast
    let ?f = "\<lambda>z. and_e (kv (fst z)) (vv (snd z))"
    have both: "\<exists>b. ?f z = Inr b"
      "(?f z = Inr True) = (kv (fst z) = Inr True \<and> vv (snd z) = Inr True)" for z
      using never_raisesD[OF assms(2), of "fst z"] never_raisesD[OF assms(3), of "snd z"]
      by (auto split: if_splits)
    have eq: "(\<lambda>(k, x). and_e (kv k) (vv x)) = ?f" by (simp add: fun_eq_iff)
    have "all_e (map (\<lambda>(k, x). and_e (kv k) (vv x)) kvs)
        = Inr (\<forall>z\<in>set kvs. ?f z = Inr True)"
      unfolding eq by (rule all_e_map) (simp add: both(1))
    then show ?thesis using True v by (simp add: pred_mapping_def both(2))
  qed
qed

section \<open>The compiled predicates on values\<close>

lemma key_get_Some:
  "(key_get vals k = Some p) = (\<exists>s. k = PStr s \<and> map_of vals s = Some p)"
  by (cases k) auto

lemma key_get_None:
  "(key_get vals k = None) = (\<forall>s. k = PStr s \<longrightarrow> map_of vals s = None)"
  by (cases k) auto

lemma key_get_never_raises:
  "\<forall>z\<in>set vals. never_raises (snd z) \<Longrightarrow> key_get vals k = Some p \<Longrightarrow> never_raises p"
  by (auto simp: key_get_Some dest!: map_of_SomeD)

lemma pred_typeddict_total_char:
  assumes "\<forall>z\<in>set vals. never_raises (snd z)"
  shows "pred_typeddict_total req vals v =
     Inr (\<exists>kvs. v = PDict kvs \<and> (\<forall>k\<in>set req. PStr k \<in> fst ` set kvs) \<and>
            (\<forall>z\<in>set kvs. \<exists>s p. fst z = PStr s \<and> map_of vals s = Some p \<and>
                                 p (snd z) = Inr True))"
proof (cases "\<exists>kvs. v = PDict kvs")
  case False
  then show ?thesis by (simp add: pred_typeddict_total_def isinstance_mapping)
next
  case True
  then obtain kvs where v: "v = PDict kvs" by blast
  let ?f = "\<lambda>z. case key_get vals (fst z) of None \<Rightarrow> Inr False | Some f \<Rightarrow> f (snd z)"
  have tot: "\<exists>b. ?f z = Inr b" for z
  proof (cases "key_get vals (fst z)")
    case None
    then show ?thesis by auto
  next
    case (Some p)
    with assms have "never_raises p" by (rule key_get_never_raises)
    with Some show ?thesis by (auto simp add: never_raises_def)
  qed
  have tr: "(?f z = Inr True)
      = (\<exists>s p. fst z = PStr s \<and> map_of vals s = Some p \<and> p (snd z) = Inr True)" for z
  proof (cases "key_get vals (fst z)")
    case None
    then have "\<forall>s. fst z = PStr s \<longrightarrow> map_of vals s = None" by (simp add: key_get_None)
    with None show ?thesis by auto
  next
    case (Some p)
    then have "\<exists>s. fst z = PStr s \<and> map_of vals s = Some p" by (simp add: key_get_Some)
    with Some show ?thesis by auto
  qed
  have eq: "(\<lambda>(k, v). case key_get vals k of None \<Rightarrow> Inr False | Some f \<Rightarrow> f v) = ?f"
    by (auto simp: fun_eq_iff split: option.splits)
  have "all_e (map (\<lambda>(k, v). case key_get vals k of None \<Rightarrow> Inr False | Some f \<Rightarrow> f v) kvs)
      = Inr (\<forall>z\<in>set kvs. ?f z = Inr True)"
    unfolding eq by (rule all_e_map) (simp add: tot)
  then show ?thesis using v
    by (simp add: pred_typeddict_total_def isinstance_mapping list_all_iff tr)
qed

lemma pred_typeddict_open_char:
  assumes "\<forall>z\<in>set vals. never_raises (snd z)"
  shows "pred_typeddict_open req vals v =
     Inr (\<exists>kvs. v = PDict kvs \<and> (\<forall>k\<in>set req. PStr k \<in> fst ` set kvs) \<and>
            (\<forall>z\<in>set kvs. \<forall>s p. fst z = PStr s \<and> map_of vals s = Some p \<longrightarrow>
                                 p (snd z) = Inr True))"
proof (cases "\<exists>kvs. v = PDict kvs")
  case False
  then show ?thesis by (simp add: pred_typeddict_open_def isinstance_mapping)
next
  case True
  then obtain kvs where v: "v = PDict kvs" by blast
  let ?f = "\<lambda>z. case key_get vals (fst z) of None \<Rightarrow> Inr True | Some f \<Rightarrow> f (snd z)"
  have tot: "\<exists>b. ?f z = Inr b" for z
  proof (cases "key_get vals (fst z)")
    case None
    then show ?thesis by auto
  next
    case (Some p)
    with assms have "never_raises p" by (rule key_get_never_raises)
    with Some show ?thesis by (auto simp add: never_raises_def)
  qed
  have tr: "(?f z = Inr True)
      = (\<forall>s p. fst z = PStr s \<and> map_of vals s = Some p \<longrightarrow> p (snd z) = Inr True)" for z
  proof (cases "key_get vals (fst z)")
    case None
    then have "\<forall>s. fst z = PStr s \<longrightarrow> map_of vals s = None" by (simp add: key_get_None)
    with None show ?thesis by auto
  next
    case (Some p)
    then have "\<exists>s. fst z = PStr s \<and> map_of vals s = Some p" by (simp add: key_get_Some)
    with Some show ?thesis by auto
  qed
  have eq: "(\<lambda>(k, v). case key_get vals k of None \<Rightarrow> Inr True | Some f \<Rightarrow> f v) = ?f"
    by (auto simp: fun_eq_iff split: option.splits)
  have "all_e (map (\<lambda>(k, v). case key_get vals k of None \<Rightarrow> Inr True | Some f \<Rightarrow> f v) kvs)
      = Inr (\<forall>z\<in>set kvs. ?f z = Inr True)"
    unfolding eq by (rule all_e_map) (simp add: tot)
  then show ?thesis using v
    by (simp add: pred_typeddict_open_def isinstance_mapping list_all_iff tr)
qed

lemma pred_type_sub_never_raises: "class_like b \<Longrightarrow> never_raises (pred_type_sub b)"
  unfolding never_raises_def
proof
  fix v assume b: "class_like b"
  show "\<exists>r. pred_type_sub b v = Inr r"
    using class_like_issubclass[OF b]
    by (cases v) (auto simp add: pred_type_sub_def isinstance_def issubclass_def)
qed

lemma denotation_never_raises: "well_formed t \<Longrightarrow> never_raises (denotation t)"
proof (induction t)
  case HAny
  then show ?case by (auto simp add: never_raises_def)
next
  case (HUnion ts)
  then have "\<forall>p\<in>set (map denotation ts). never_raises p"
    by (auto simp: list_all_iff)
  then show ?case
    by (auto simp add: never_raises_def pred_any_char)
next
  case (HTypedDict n tot fs)
  let ?vals = "map (\<lambda>f. (fst f, denotation (snd (snd f)))) fs"
  have "\<forall>z\<in>set ?vals. never_raises (snd z)"
  proof
    fix z assume "z \<in> set ?vals"
    then obtain f where f: "f \<in> set fs" "z = (fst f, denotation (snd (snd f)))" by auto
    obtain k r h where krh: "f = (k, r, h)" by (cases f) auto
    from HTypedDict.prems f(1) krh have "well_formed h" by (auto simp: list_all_iff)
    moreover have "h \<in> Basic_BNFs.snds (r, h)" "(r, h) \<in> Basic_BNFs.snds f"
      using krh by (auto simp: snds.simps)
    ultimately have "never_raises (denotation h)"
      using HTypedDict.IH f(1) by blast
    with f(2) krh show "never_raises (snd z)" by simp
  qed
  then show ?case
    by (auto simp add: never_raises_def pred_typeddict_total_char pred_typeddict_open_char Let_def)
next
  case (HNewType n t)
  then show ?case by simp
next
  case (HLiteral ks)
  then show ?case by (auto simp add: never_raises_def pred_literal_def)
next
  case (HInitVar i t)
  then show ?case by simp
next
  case (HAlias c0 ts)
  show ?case
  proof (cases "c0 = C_type")
    case True
    with HAlias.prems show ?thesis
      by (simp add: pred_type_sub_never_raises)
  next
    case nt: False
    show ?thesis
    proof (cases "issubclass c0 Abc_Mapping")
      case True
      with nt HAlias.prems obtain a b where ts: "ts = [a, b]" "well_formed a" "well_formed b"
        by (cases ts; cases "tl ts") auto
      with HAlias.IH have "never_raises (denotation a)" "never_raises (denotation b)" by auto
      with True nt ts show ?thesis
        by (auto simp add: never_raises_def pred_mapping_char)
    next
      case nm: False
      show ?thesis
      proof (cases "c0 = C_tuple")
        case True
        have coll: "issubclass C_tuple Abc_Collection" by (simp add: issubclass_def)
        consider "ts = [] \<or> ts = [HConst KEmptyTuple]"
          | "\<not> (ts = [] \<or> ts = [HConst KEmptyTuple])" "length ts = 2 \<and> ts ! 1 = HConst KEllipsis"
          | "\<not> (ts = [] \<or> ts = [HConst KEmptyTuple])" "\<not> (length ts = 2 \<and> ts ! 1 = HConst KEllipsis)"
          by blast
        then show ?thesis
        proof cases
          case 1
          with True nt nm show ?thesis
            by (auto simp: never_raises_def pred_tuple_empty_char issubclass_tuple)
        next
          case 2
          then obtain a where ts: "ts = [a, HConst KEllipsis]"
            by (cases ts; cases "tl ts") auto
          with HAlias.prems True nt nm have "well_formed a"
            by (auto simp: issubclass_tuple)
          with HAlias.IH ts have "never_raises (denotation a)" by auto
          with ts True nt nm coll show ?thesis
            by (auto simp add: never_raises_def pred_items_char issubclass_tuple)
        next
          case 3
          with HAlias.prems True nt nm have "list_all well_formed ts"
            by (auto simp: issubclass_tuple)
          with HAlias.IH have "\<forall>p\<in>set (map denotation ts). never_raises p"
            by (auto simp: list_all_iff)
          with 3 True nt nm show ?thesis
            by (auto simp add: never_raises_def pred_tuple_fixed_char issubclass_tuple)
        qed
      next
        case ntup: False
        with nt nm HAlias.prems obtain a where
          ts: "ts = [a]" "well_formed a" and coll: "issubclass c0 Abc_Collection"
          by (cases ts) (auto simp: issubclass_tuple split: if_splits)
        with HAlias.IH have "never_raises (denotation a)" by auto
        with ts nt nm ntup coll show ?thesis
          by (auto simp add: never_raises_def pred_items_char issubclass_tuple)
      qed
    qed
  qed
next
  case (HBare c0)
  then show ?case
    by (auto simp add: never_raises_def pred_origin_def pred_type_def pred_isinstance_def)
next
  case (HClass c0)
  then show ?case
    by (auto simp add: never_raises_def pred_complex_def pred_float_def pred_isinstance_def)
next
  case (HDerivedTypedDict n tot fs)
  then show ?case by simp
next
  case (HProtocol n)
  then show ?case by simp
next
  case (HConst k)
  then show ?case by simp
qed

section \<open>Equal keys denote the same predicate\<close>

lemma hint_eq_class_like: "class_like b \<Longrightarrow> hint_eq a b = (a = b)"
  by (cases b; cases a) simp_all

lemma hint_eq_ellipsis:
  "hint_eq x (HConst KEllipsis) = (x = HConst KEllipsis)"
  "hint_eq (HConst KEllipsis) x = (x = HConst KEllipsis)"
proof -
  show "hint_eq x (HConst KEllipsis) = (x = HConst KEllipsis)"
  proof (cases x)
    case (HConst k)
    then show ?thesis by (cases k) auto
  qed simp_all
  show "hint_eq (HConst KEllipsis) x = (x = HConst KEllipsis)"
  proof (cases x)
    case (HConst k)
    then show ?thesis by (cases k) auto
  qed simp_all
qed

lemma hint_eq_empty_tuple_left: "hint_eq (HConst KEmptyTuple) x = (x = HConst KEmptyTuple)"
proof (cases x)
  case (HConst k)
  then show ?thesis by (cases k) auto
qed simp_all

lemma hint_eq_well_formed_const:
  "well_formed b \<Longrightarrow> hint_eq a b \<Longrightarrow> \<forall>k. a \<noteq> HConst k"
  by (cases b; cases a) auto

lemma py_in_consts: "py_in v (map HConst ks) = (\<exists>k\<in>set ks. py_eq k v)"
  by (simp add: py_in_def list_ex_iff)

lemma pred_literal_set:
  assumes "set ks = set ls"
  shows "pred_literal (if ks = [] then [HConst KEmptyTuple] else map HConst ks)
       = pred_literal (if ls = [] then [HConst KEmptyTuple] else map HConst ls)"
proof -
  have "(ks = []) = (ls = [])" using assms by auto
  then show ?thesis
    using assms by (auto simp: pred_literal_def fun_eq_iff py_in_consts)
qed

lemma hint_eq_denotation:
  "well_formed t \<Longrightarrow> hint_eq k t \<Longrightarrow> well_formed k \<and> denotation k = denotation t"
proof (induction t arbitrary: k)
  case HAny
  then show ?case by (cases k) simp_all
next
  case (HUnion bs)
  from HUnion.prems(2) obtain as where k: "k = HUnion as"
    by (cases k) simp_all
  from HUnion.prems k have
    A: "\<forall>a\<in>set as. \<exists>b\<in>set bs. hint_eq a b" and
    B: "\<forall>b\<in>set bs. \<exists>a\<in>set as. hint_eq a b" and
    wfb: "\<forall>b\<in>set bs. well_formed b" and ne: "bs \<noteq> []"
    by (simp_all add: list_all_iff list_ex_iff)
  have ih: "hint_eq a b \<Longrightarrow> b \<in> set bs \<Longrightarrow> well_formed a \<and> denotation a = denotation b" for a b
    using HUnion.IH wfb by blast
  have wfa: "\<forall>a\<in>set as. well_formed a" using A ih by blast
  have ne': "as \<noteq> []" using B ne by (cases bs) auto
  have "denotation ` set as = denotation ` set bs"
  proof (intro equalityI subsetI)
    fix p assume "p \<in> denotation ` set as"
    then obtain a where a: "a \<in> set as" "p = denotation a" by auto
    with A obtain b where "b \<in> set bs" "hint_eq a b" by blast
    with ih a show "p \<in> denotation ` set bs" by auto
  next
    fix p assume "p \<in> denotation ` set bs"
    then obtain b where b: "b \<in> set bs" "p = denotation b" by auto
    with B obtain a where a: "a \<in> set as" "hint_eq a b" by blast
    from ih[OF a(2) b(1)] b(2) have "p = denotation a" by simp
    with a(1) show "p \<in> denotation ` set as" by blast
  qed
  then have sets: "set (map denotation as) = set (map denotation bs)" by simp
  have nra: "\<forall>p\<in>set (map denotation as). never_raises p"
    using wfa by (auto dest: denotation_never_raises)
  have nrb: "\<forall>p\<in>set (map denotation bs). never_raises p"
    using wfb by (auto dest: denotation_never_raises)
  have "pred_any (map denotation as) v = pred_any (map denotation bs) v" for v
    unfolding pred_any_char[OF nra] pred_any_char[OF nrb] sets ..
  then have "denotation (HUnion as) = denotation (HUnion bs)"
    by (simp add: fun_eq_iff)
  with wfa ne' k show ?case by (simp add: list_all_iff)
next
  case (HTypedDict n tot fs)
  then show ?case by (cases k) simp_all
next
  case (HNewType n t)
  then show ?case by (cases k) simp_all
next
  case (HLiteral ls)
  from HLiteral.prems(2) obtain ks where k: "k = HLiteral ks"
    by (cases k) simp_all
  with HLiteral.prems(2) have "set ks = set ls" by simp
  from pred_literal_set[OF this] k show ?case by simp
next
  case (HInitVar i t)
  then show ?case by (cases k) simp_all
next
  case (HAlias c0 bs)
  from HAlias.prems(2) obtain as where k: "k = HAlias c0 as" and rel: "list_all2 hint_eq as bs"
    by (cases k) auto
  have len: "length as = length bs" using rel by (rule list_all2_lengthD)
  have nth: "i < length bs \<Longrightarrow> hint_eq (as ! i) (bs ! i)" for i
    using rel by (simp add: list_all2_conv_all_nth)
  have ih: "hint_eq a b \<Longrightarrow> b \<in> set bs \<Longrightarrow> well_formed b \<Longrightarrow>
      well_formed a \<and> denotation a = denotation b" for a b
    using HAlias.IH by blast
  show ?case
  proof (cases "c0 = C_type")
    case True
    with HAlias.prems(1) obtain b where bs: "bs = [b]" "class_like b"
      by (cases bs) auto
    with rel obtain a where "as = [a]" "hint_eq a b"
      by (cases as) auto
    with bs have "as = bs" by (simp add: hint_eq_class_like)
    with k HAlias.prems(1) show ?thesis by simp
  next
    case nt: False
    show ?thesis
    proof (cases "issubclass c0 Abc_Mapping")
      case True
      with nt HAlias.prems(1) obtain b1 b2 where
        bs: "bs = [b1, b2]" "well_formed b1" "well_formed b2"
        by (cases bs; cases "tl bs") auto
      with rel obtain a1 a2 where as: "as = [a1, a2]" "hint_eq a1 b1" "hint_eq a2 b2"
        by (cases as; cases "tl as") auto
      from ih[OF as(2)] ih[OF as(3)] bs
      have "well_formed a1 \<and> denotation a1 = denotation b1"
           "well_formed a2 \<and> denotation a2 = denotation b2" by simp_all
      with k as bs True nt show ?thesis by simp
    next
      case nm: False
      show ?thesis
      proof (cases "c0 = C_tuple")
        case True
        have empty: "(as = [] \<or> as = [HConst KEmptyTuple]) = (bs = [] \<or> bs = [HConst KEmptyTuple])"
        proof (cases bs)
          case Nil
          then show ?thesis using len by simp
        next
          case (Cons b bs')
          then obtain a as' where as: "as = a # as'" "length as' = length bs'" "hint_eq a b"
            using rel by (cases as) (auto dest: list_all2_lengthD)
          then show ?thesis using Cons
            by (auto simp: hint_eq_empty_tuple hint_eq_empty_tuple_left)
        qed
        have var: "(length as = 2 \<and> as ! 1 = HConst KEllipsis)
            = (length bs = 2 \<and> bs ! 1 = HConst KEllipsis)"
          using len nth[of 1] by (auto simp: hint_eq_ellipsis)
        consider "bs = [] \<or> bs = [HConst KEmptyTuple]"
          | "\<not> (bs = [] \<or> bs = [HConst KEmptyTuple])" "length bs = 2 \<and> bs ! 1 = HConst KEllipsis"
          | "\<not> (bs = [] \<or> bs = [HConst KEmptyTuple])" "\<not> (length bs = 2 \<and> bs ! 1 = HConst KEllipsis)"
          by blast
        then show ?thesis
        proof cases
          case 1
          with empty k True nt nm show ?thesis
            by (auto simp: issubclass_tuple)
        next
          case 2
          then obtain b where bs: "bs = [b, HConst KEllipsis]"
            by (cases bs; cases "tl bs") auto
          with HAlias.prems(1) True nt nm have wb: "well_formed b"
            by (auto simp: issubclass_tuple)
          from bs rel obtain a a' where as: "as = [a, a']" "hint_eq a b"
            by (cases as; cases "tl as") auto
          from ih[OF as(2)] bs wb have "well_formed a \<and> denotation a = denotation b" by simp
          moreover from var 2 as have "a' = HConst KEllipsis" by simp
          ultimately show ?thesis
            using k as bs True nt nm by (simp add: issubclass_tuple)
        next
          case 3
          with HAlias.prems(1) True nt nm have wfb: "list_all well_formed bs"
            by (auto simp: issubclass_tuple)
          have each: "\<forall>i<length bs. well_formed (as ! i) \<and> denotation (as ! i) = denotation (bs ! i)"
          proof (intro allI impI)
            fix i assume i: "i < length bs"
            then have "bs ! i \<in> set bs" "well_formed (bs ! i)"
              using wfb by (auto simp: list_all_iff)
            with ih[OF nth[OF i]] show "well_formed (as ! i) \<and> denotation (as ! i) = denotation (bs ! i)"
              by simp
          qed
          have wfa: "list_all well_formed as"
            using each len by (auto simp: list_all_length)
          have "map denotation as = map denotation bs"
            using each len by (auto intro: nth_equalityI)
          with wfa 3 empty var k True nt nm show ?thesis
            by (simp add: issubclass_tuple)
        qed
      next
        case ntup: False
        with nt nm HAlias.prems(1) obtain b where
          bs: "bs = [b]" "well_formed b" and coll: "issubclass c0 Abc_Collection"
          by (cases bs) (auto simp: issubclass_tuple split: if_splits)
        with rel obtain a where as: "as = [a]" "hint_eq a b"
          by (cases as) auto
        from ih[OF as(2)] bs have "well_formed a \<and> denotation a = denotation b" by simp
        with k as bs nt nm ntup coll show ?thesis
          by (simp add: issubclass_tuple)
      qed
    qed
  qed
next
  case (HBare c0)
  then show ?case by (cases k) simp_all
next
  case (HClass c0)
  then show ?case by (cases k) simp_all
next
  case (HDerivedTypedDict n tot fs)
  then show ?case by simp
next
  case (HProtocol n)
  then show ?case by simp
next
  case (HConst l)
  then show ?case by simp
qed

lemma cache_hit:
  "cache_ok c \<Longrightarrow> well_formed t \<Longrightarrow> cache_get c t = Some p \<Longrightarrow> p = denotation t"
proof (induction c)
  case Nil
  then show ?case by simp
next
  case (Cons e c)
  obtain k q where e: "e = (k, q)" by (cases e) auto
  show ?case
  proof (cases "hint_eq k t")
    case True
    with Cons.prems(2) have "well_formed k \<and> denotation k = denotation t"
      by (simp add: hint_eq_denotation)
    moreover from True Cons.prems(3) e have "p = q" by simp
    ultimately show ?thesis using Cons.prems(1) e by (simp add: cache_ok_def)
  next
    case False
    with Cons e show ?thesis by (simp add: cache_ok_def)
  qed
qed

section \<open>The cache never changes a verdict\<close>

lemma validator_step:
  assumes "\<And>c. cache_ok c \<Longrightarrow>
      cache_ok (snd (get_validator t c)) \<and>
      (well_formed t \<longrightarrow> fst (get_validator t c) = Inr (denotation t))"
  shows "good t"
  unfolding good_def
proof (intro allI impI)
  fix c assume ok: "cache_ok c"
  show "cache_ok (snd (validator t c)) \<and>
      (well_formed t \<longrightarrow> fst (validator t c) = Inr (denotation t))"
  proof (cases "cache_get c t")
    case (Some p)
    then have "validator t c = (Inr p, c)" by (simp add: validator.simps)
    with ok Some show ?thesis by (auto dest: cache_hit)
  next
    case None
    obtain r c' where g: "get_validator t c = (r, c')" by (cases "get_validator t c") auto
    from assms[OF ok] g have c': "cache_ok c'"
      and r: "well_formed t \<Longrightarrow> r = Inr (denotation t)" by simp_all
    show ?thesis
    proof (cases r)
      case (Inl e)
      with None g have "validator t c = (Inl e, c')" by (simp add: validator.simps)
      with c' r Inl show ?thesis by auto
    next
      case (Inr p)
      with None g have "validator t c = (Inr p, (t, p) # c')" by (simp add: validator.simps)
      with c' r Inr show ?thesis by (auto simp: cache_ok_def)
    qed
  qed
qed

lemma good_HConst: "good (HConst k)"
  by (rule validator_step) (simp add: get_validator_HConst)

lemma validator_list_good:
  assumes "\<forall>x\<in>set ts. good x" "cache_ok c"
  shows "cache_ok (snd (validator_list ts c)) \<and>
     (list_all well_formed ts \<longrightarrow> fst (validator_list ts c) = Inr (map denotation ts))"
  using assms
proof (induction ts arbitrary: c)
  case Nil
  then show ?case by simp
next
  case (Cons t ts)
  obtain r c1 where v: "validator t c = (r, c1)" by (cases "validator t c") auto
  from Cons.prems v have c1: "cache_ok c1"
    and r: "well_formed t \<Longrightarrow> r = Inr (denotation t)"
    by (auto simp: good_def)
  show ?case
  proof (cases r)
    case (Inl e)
    with v c1 r show ?thesis by auto
  next
    case (Inr p)
    obtain rs c2 where vs: "validator_list ts c1 = (rs, c2)"
      by (cases "validator_list ts c1") auto
    from Cons.IH[of c1] Cons.prems(1) c1 vs have c2: "cache_ok c2"
      and rs: "list_all well_formed ts \<Longrightarrow> rs = Inr (map denotation ts)"
      by auto
    from v vs Inr c2 r rs show ?thesis by (cases rs) auto
  qed
qed

lemma validator_dict_good:
  assumes "\<forall>z\<in>set fs. good (snd z)" "cache_ok c"
  shows "cache_ok (snd (validator_dict fs c)) \<and>
     (list_all (\<lambda>z. well_formed (snd z)) fs \<longrightarrow>
        fst (validator_dict fs c) = Inr (map (\<lambda>z. (fst z, denotation (snd z))) fs))"
  using assms
proof (induction fs arbitrary: c)
  case Nil
  then show ?case by simp
next
  case (Cons f fs)
  obtain k t where f: "f = (k, t)" by (cases f) auto
  obtain r c1 where v: "validator t c = (r, c1)" by (cases "validator t c") auto
  from Cons.prems v f have c1: "cache_ok c1"
    and r: "well_formed t \<Longrightarrow> r = Inr (denotation t)"
    by (auto simp: good_def)
  show ?case
  proof (cases r)
    case (Inl e)
    with v c1 r f show ?thesis by auto
  next
    case (Inr p)
    obtain rs c2 where vs: "validator_dict fs c1 = (rs, c2)"
      by (cases "validator_dict fs c1") auto
    from Cons.IH[of c1] Cons.prems(1) c1 vs have c2: "cache_ok c2"
      and rs: "list_all (\<lambda>z. well_formed (snd z)) fs \<Longrightarrow>
          rs = Inr (map (\<lambda>z. (fst z, denotation (snd z))) fs)"
      by auto
    from v vs Inr c2 r rs f show ?thesis by (cases rs) auto
  qed
qed

lemma required_keys_fields:
  "map fst (filter (\<lambda>(k, v). is_required v)
      (map (\<lambda>(k, r, h). (k, if r then A_Required h else A_Plain h)) fs))
   = map fst (filter (\<lambda>f. fst (snd f)) fs)"
  by (induction fs) (auto split: if_splits)

lemma typeddict_validator_good:
  assumes "\<forall>f\<in>set fs. good (snd (snd f))" "cache_ok c"
  shows "cache_ok (snd (typeddict_validator (HTypedDict n tot fs) c)) \<and>
     (well_formed (HTypedDict n tot fs) \<longrightarrow>
        fst (typeddict_validator (HTypedDict n tot fs) c)
          = Inr (denotation (HTypedDict n tot fs)))"
proof -
  let ?hints = "map (\<lambda>(k, r, h). (k, h)) fs"
  have g: "\<forall>z\<in>set ?hints. good (snd z)" using assms(1) by auto
  have wf: "list_all (\<lambda>z. well_formed (snd z)) ?hints = list_all (\<lambda>f. well_formed (snd (snd f))) fs"
    by (auto simp: list_all_iff)
  have mp: "map (\<lambda>z. (fst z, denotation (snd z))) ?hints
      = map (\<lambda>f. (fst f, denotation (snd (snd f)))) fs"
    by auto
  obtain rs c' where vd: "validator_dict ?hints c = (rs, c')"
    by (cases "validator_dict ?hints c") auto
  from validator_dict_good[OF g assms(2)] vd wf mp have c': "cache_ok c'"
    and rs: "well_formed (HTypedDict n tot fs) \<Longrightarrow>
        rs = Inr (map (\<lambda>f. (fst f, denotation (snd (snd f)))) fs)"
    by auto
  show ?thesis
    using vd c' rs
    by (cases rs)
       (auto simp: typeddict_validator.simps get_type_hints_def get_type_hints_extras_def
          required_keys_fields Let_def)
qed

lemma mapping_is_collection:
  assumes "issubclass c0 Abc_Mapping"
  shows "issubclass c0 Abc_Collection"
proof -
  from assms have "c0 = Abc_Mapping \<or> c0 = C_dict" by (simp add: issubclass_mapping)
  then show ?thesis by (auto simp: issubclass_def)
qed

lemma validator_good: "good t"
proof (induction t)
  case HAny
  show ?case by (rule validator_step) (simp add: get_validator_HAny)
next
  case (HUnion ts)
  show ?case
  proof (rule validator_step)
    fix c assume ok: "cache_ok c"
    let ?l = "if ts = [] then [HConst KEmptyTuple] else ts"
    have "\<forall>x\<in>set ?l. good x" using HUnion.IH good_HConst by auto
    from validator_list_good[OF this ok]
    obtain rs c' where vl: "validator_list ?l c = (rs, c')" and c': "cache_ok c'"
      and rs: "list_all well_formed ?l \<Longrightarrow> rs = Inr (map denotation ?l)"
      by (cases "validator_list ?l c") auto
    show "cache_ok (snd (get_validator (HUnion ts) c)) \<and>
      (well_formed (HUnion ts) \<longrightarrow> fst (get_validator (HUnion ts) c) = Inr (denotation (HUnion ts)))"
      using vl c' rs by (cases rs) (auto simp: get_validator_HUnion)
  qed
next
  case (HTypedDict n tot fs)
  have g: "\<forall>f\<in>set fs. good (snd (snd f))"
  proof
    fix f assume f: "f \<in> set fs"
    obtain k r h where krh: "f = (k, r, h)" by (cases f) auto
    have "h \<in> Basic_BNFs.snds (r, h)" "(r, h) \<in> Basic_BNFs.snds f"
      using krh by (auto simp: snds.simps)
    with HTypedDict.IH f have "good h" by blast
    with krh show "good (snd (snd f))" by simp
  qed
  show ?case
  proof (rule validator_step)
    fix c assume ok: "cache_ok c"
    from typeddict_validator_good[OF g ok, of n tot]
    show "cache_ok (snd (get_validator (HTypedDict n tot fs) c)) \<and>
      (well_formed (HTypedDict n tot fs) \<longrightarrow>
         fst (get_validator (HTypedDict n tot fs) c) = Inr (denotation (HTypedDict n tot fs)))"
      unfolding get_validator_HTypedDict by blast
  qed
next
  case (HNewType n t)
  show ?case
  proof (rule validator_step)
    fix c assume "cache_ok c"
    with HNewType.IH show "cache_ok (snd (get_validator (HNewType n t) c)) \<and>
      (well_formed (HNewType n t) \<longrightarrow>
         fst (get_validator (HNewType n t) c) = Inr (denotation (HNewType n t)))"
      by (simp add: get_validator_HNewType good_def)
  qed
next
  case (HLiteral ks)
  show ?case by (rule validator_step) (simp add: get_validator_HLiteral)
next
  case (HInitVar i t)
  show ?case
  proof (rule validator_step)
    fix c assume "cache_ok c"
    with HInitVar.IH show "cache_ok (snd (get_validator (HInitVar i t) c)) \<and>
      (well_formed (HInitVar i t) \<longrightarrow>
         fst (get_validator (HInitVar i t) c) = Inr (denotation (HInitVar i t)))"
      by (simp add: get_validator_HInitVar good_def)
  qed
next
  case (HAlias c0 ts)
  have gts: "\<forall>x\<in>set ts. good x" using HAlias.IH by blast
  show ?case
  proof (rule validator_step)
    fix c assume ok: "cache_ok c"
    let ?t = "HAlias c0 ts"
    show "cache_ok (snd (get_validator ?t c)) \<and>
      (well_formed ?t \<longrightarrow> fst (get_validator ?t c) = Inr (denotation ?t))"
    proof (cases "c0 = C_type")
      case True
      with ok show ?thesis
        by (cases ts) (auto simp: get_validator_Type)
    next
      case nt: False
      show ?thesis
      proof (cases "issubclass c0 Abc_Mapping")
        case True
        show ?thesis
        proof (cases "length ts = 2")
          case False
          with True nt ok show ?thesis
            by (simp add: get_validator_Mapping_arity)
        next
          case len: True
          then obtain a b where ts: "ts = [a, b]"
            by (cases ts; cases "tl ts") auto
          obtain r1 c1 where v1: "validator a c = (r1, c1)" by (cases "validator a c") auto
          obtain r2 c2 where v2: "validator b c1 = (r2, c2)" by (cases "validator b c1") auto
          from gts ts ok v1 have c1: "cache_ok c1"
            and r1: "well_formed a \<Longrightarrow> r1 = Inr (denotation a)"
            by (auto simp: good_def)
          from gts ts c1 v2 have c2: "cache_ok c2"
            and r2: "well_formed b \<Longrightarrow> r2 = Inr (denotation b)"
            by (auto simp: good_def)
          show ?thesis
            using True nt ts v1 v2 c1 c2 r1 r2
            by (cases r1; cases r2) (auto simp: get_validator_Mapping)
        qed
      next
        case nm: False
        show ?thesis
        proof (cases "c0 = C_tuple")
          case True
          consider "ts = [] \<or> ts = [HConst KEmptyTuple]"
            | "\<not> (ts = [] \<or> ts = [HConst KEmptyTuple])" "length ts = 2 \<and> ts ! 1 = HConst KEllipsis"
            | "\<not> (ts = [] \<or> ts = [HConst KEmptyTuple])" "\<not> (length ts = 2 \<and> ts ! 1 = HConst KEllipsis)"
            by blast
          then show ?thesis
          proof cases
            case 1
            with True ok nt nm show ?thesis
              by (auto simp: get_validator_Tuple issubclass_tuple)
          next
            case 2
            then obtain a where ts: "ts = [a, HConst KEllipsis]"
              by (cases ts; cases "tl ts") auto
            obtain r1 c1 where v1: "validator a c = (r1, c1)" by (cases "validator a c") auto
            from gts ts ok v1 have c1: "cache_ok c1"
              and r1: "well_formed a \<Longrightarrow> r1 = Inr (denotation a)"
              by (auto simp: good_def)
            show ?thesis
              using True nt nm ts v1 c1 r1
              by (cases r1) (auto simp: get_validator_Tuple issubclass_tuple)
          next
            case 3
            from validator_list_good[OF gts ok]
            obtain rs c' where vl: "validator_list ts c = (rs, c')" and c': "cache_ok c'"
              and rs: "list_all well_formed ts \<Longrightarrow> rs = Inr (map denotation ts)"
              by (cases "validator_list ts c") auto
            show ?thesis
              using True nt nm 3 vl c' rs
              by (cases rs) (auto simp: get_validator_Tuple issubclass_tuple)
          qed
        next
          case ntup: False
          show ?thesis
          proof (cases "issubclass c0 Abc_Collection")
            case False
            with nt ok nm ntup show ?thesis
              by (simp add: get_validator_other_alias issubclass_tuple)
          next
            case True
            let ?a = "if ts = [] then HConst KEmptyTuple else hd ts"
            have "good ?a" using gts good_HConst by (cases ts) auto
            with ok obtain r1 c1 where v1: "validator ?a c = (r1, c1)" and c1: "cache_ok c1"
              and r1: "well_formed ?a \<Longrightarrow> r1 = Inr (denotation ?a)"
              by (cases "validator ?a c") (auto simp: good_def)
            have wf: "well_formed ?t \<Longrightarrow> ts = [hd ts] \<and> well_formed (hd ts)"
              using nt nm ntup True by (cases ts) (auto simp: issubclass_tuple)
            have r1': "r1 = Inr (denotation (hd ts)) \<and> hd (map denotation ts) = denotation (hd ts)"
              if w: "well_formed ?t"
            proof -
              from wf[OF w] have ne: "ts \<noteq> []" and wh: "well_formed (hd ts)" by auto
              from ne wh r1 have "r1 = Inr (denotation (hd ts))" by simp
              moreover from ne have "hd (map denotation ts) = denotation (hd ts)"
                by (cases ts) auto
              ultimately show ?thesis by simp
            qed
            have gv: "get_validator ?t c =
                (case r1 of Inl e \<Rightarrow> (Inl e, c1) | Inr v \<Rightarrow> (Inr (pred_items c0 v), c1))"
              using True nm ntup v1 by (cases r1) (simp_all add: get_validator_Collection)
            have dn: "denotation ?t = pred_items c0 (hd (map denotation ts))"
              using nt nm ntup by (simp add: issubclass_tuple)
            show ?thesis
            proof (cases "well_formed ?t")
              case False
              then show ?thesis using gv c1 by (cases r1) simp_all
            next
              case w: True
              from r1'[OF w] gv c1 dn show ?thesis by simp
            qed
          qed
        qed
      qed
    qed
  qed
next
  case (HBare c0)
  show ?case by (rule validator_step) (simp add: get_validator_HBare)
next
  case (HClass c0)
  show ?case
  proof (rule validator_step)
    fix c assume "cache_ok c"
    with good_HConst[of KSlot]
    show "cache_ok (snd (get_validator (HClass c0) c)) \<and>
      (well_formed (HClass c0) \<longrightarrow>
         fst (get_validator (HClass c0) c) = Inr (denotation (HClass c0)))"
      by (simp add: get_validator_HClass good_def)
  qed
next
  case (HDerivedTypedDict n tot fs)
  show ?case by (rule validator_step) (simp add: get_validator_HDerivedTypedDict)
next
  case (HProtocol n)
  show ?case by (rule validator_step) (simp add: get_validator_HProtocol)
next
  case (HConst k)
  show ?case by (rule good_HConst)
qed

lemma reachable_cache_ok: "reachable c \<Longrightarrow> cache_ok c"
proof (induction rule: reachable.induct)
  case initial
  show ?case by (simp add: cache_ok_def)
next
  case (compiled c t)
  with validator_good[of t] show ?case by (simp add: good_def)
qed

lemma validator_denotation:
  "reachable c \<Longrightarrow> well_formed t \<Longrightarrow> fst (validator t c) = Inr (denotation t)"
  using validator_good[of t] reachable_cache_ok[of c] by (simp add: good_def)

lemma validate_denotation:
  "reachable c \<Longrightarrow> well_formed t \<Longrightarrow> validate c t v = denotation t v"
  by (simp add: validate_def validator_denotation)

lemma const_eq_refl: "const_eq k k"
  by (cases "num_of_const k") simp_all

lemma hint_eq_refl: "hint_eq t t"
proof (induction t)
  case (HUnion ts)
  then have "\<forall>a\<in>set ts. \<exists>b\<in>set ts. hint_eq a b" by blast
  moreover from HUnion have "\<forall>b\<in>set ts. \<exists>a\<in>set ts. hint_eq a b" by blast
  ultimately show ?case by (simp add: list_all_iff list_ex_iff)
next
  case (HAlias c0 ts)
  then have "list_all2 hint_eq ts ts" by (simp add: list_all2_same)
  then show ?case by simp
next
  case (HConst k)
  show ?case using const_eq_refl[of k] by simp
qed simp_all

lemma validator_again:
  assumes "fst (validator t c) = Inr p"
  shows "validator t (snd (validator t c)) = (Inr p, snd (validator t c))"
proof (cases "cache_get c t")
  case (Some q)
  then have "validator t c = (Inr q, c)" by (simp add: validator.simps)
  with assms Some show ?thesis by simp
next
  case None
  obtain r c' where g: "get_validator t c = (r, c')" by (cases "get_validator t c") auto
  show ?thesis
  proof (cases r)
    case (Inl e)
    with None g assms show ?thesis by (simp add: validator.simps)
  next
    case (Inr q)
    with None g have v: "validator t c = (Inr q, (t, q) # c')" by (simp add: validator.simps)
    with assms have "q = p" by simp
    with v show ?thesis by (simp add: validator.simps[of t "(t, p) # c'"] hint_eq_refl)
  qed
qed

lemma reachable_validator_dict:
  "reachable c \<Longrightarrow> reachable (snd (validator_dict hints c))"
proof (induction hints arbitrary: c)
  case Nil
  then show ?case by simp
next
  case (Cons f hints)
  obtain k t where f: "f = (k, t)" by (cases f) auto
  obtain r c1 where v: "validator t c = (r, c1)" by (cases "validator t c") auto
  have c1: "reachable c1" using reachable.compiled[OF Cons.prems, of t] v by simp
  show ?case
  proof (cases r)
    case (Inl e)
    with v c1 f show ?thesis by simp
  next
    case (Inr p)
    obtain rs c2 where vs: "validator_dict hints c1 = (rs, c2)"
      by (cases "validator_dict hints c1") auto
    from Cons.IH[OF c1] vs have "reachable c2" by simp
    with v vs Inr f show ?thesis by (cases rs) simp_all
  qed
qed

lemma reachable_field_table:
  "reachable c \<Longrightarrow> reachable (snd (dataclass_field_validators hints c))"
  by (simp add: dataclass_field_validators_def reachable_validator_dict)

section \<open>The repository's unit tests, run on the model\<close>

text \<open>
  The assertions of \<open>ValidatorTest\<close> in \<open>unittests/cargotests.py\<close>, each evaluated
  on the empty cache.  Further evaluations record the annotations that raise on every
  value: the unparameterised \<open>InitVar\<close>, a \<open>Protocol\<close> class that is not runtime
  checkable, a \<open>TypedDict\<close> class derived from another, and \<open>Type[...]\<close> bound by a
  \<open>TypedDict\<close> class (on every class object).
\<close>

lemmas pred_defs = pred_any_def pred_typeddict_total_def pred_typeddict_open_def pred_literal_def
  pred_origin_def pred_mapping_def pred_tuple_empty_def pred_items_def pred_tuple_fixed_def
  pred_type_def pred_type_sub_def pred_isinstance_def pred_complex_def pred_float_def

lemmas run = validate_def validator.simps get_validator.simps typeddict_validator.simps
  cls_defs pred_defs get_type_hints_def get_type_hints_extras_def
  isinstance_def issubclass_def py_in_def


lemma test_validator:
  "validate [] (HClass C_bool) (PBool True) = Inr True"
  "validate [] (HClass C_bool) (PStr []) = Inr False"
  "validate [] (HClass C_bool) (PStr ''abc'') = Inr False"
  "validate [] (HClass C_float) (PInt 1) = Inr True"
  "validate [] (HBare C_list) (PList []) = Inr True"
  "validate [] (HBare C_list) (PList [PStr ''abc'']) = Inr True"
  "validate [] (HAlias C_list [HClass C_str]) (PList [PStr ''abc'', PStr ''def'']) = Inr True"
  "validate [] (HAlias C_list [HClass C_int]) (PList [PStr ''abc'', PStr ''def'']) = Inr False"
  "validate [] (HAlias C_list [HClass C_int]) (PList [PInt 123, PStr ''def'']) = Inr False"
  "validate [] (HAlias C_list [HClass C_str]) (PList [PInt 123, PStr ''def'']) = Inr False"
  "validate [] (HUnion [HClass C_int, HClass C_NoneType]) (PInt 123) = Inr True"
  "validate [] (HUnion [HClass C_int, HClass C_NoneType]) PNone = Inr True"
  "validate [] (HClass C_int) PNone = Inr False"
  "validate [] (HUnion [HClass C_str, HClass C_int]) (PInt 123) = Inr True"
  "validate [] (HUnion [HClass C_str, HClass C_int]) (PStr ''abc'') = Inr True"
  "validate [] (HUnion [HClass C_str, HClass C_int]) (PList []) = Inr False"
  "validate [] (HUnion [HClass C_str, HClass C_int]) (PList [PStr ''abc'']) = Inr False"
  "validate [] (HAlias C_dict [HClass C_str, HClass C_int]) (PDict [(PStr ''abc'', PInt 123)]) = Inr True"
  "validate [] (HAlias C_dict [HClass C_str, HClass C_int]) (PDict [(PStr ''abc'', PStr ''abc'')]) = Inr False"
  "validate [] (HAlias Abc_Mapping [HClass C_str, HClass C_int]) (PDict [(PStr ''abc'', PInt 123)]) = Inr True"
  "validate [] (HAlias Abc_Mapping [HClass C_str, HClass C_int]) (PDict [(PStr ''abc'', PStr ''abc'')]) = Inr False"
  "validate [] (HAlias C_tuple [HClass C_int]) (PInt 123) = Inr False"
  "validate [] (HAlias C_tuple [HClass C_int]) (PTuple [PInt 123]) = Inr True"
  "validate [] (HAlias C_tuple [HClass C_int]) (PTuple [PInt 123, PInt 456]) = Inr False"
  "validate [] (HAlias C_tuple [HClass C_int, HConst KEllipsis]) (PTuple [PInt 123, PInt 456]) = Inr True"
  "validate [] (HAlias C_tuple [HClass C_int, HClass C_str]) (PTuple [PInt 123, PStr ''abc'']) = Inr True"
  "validate [] (HLiteral [KStr ''abc'', KStr ''def'']) (PStr ''abc'') = Inr True"
  "validate [] (HLiteral [KStr ''abc'', KStr ''def'']) (PStr ''def'') = Inr True"
  "validate [] (HLiteral [KStr ''abc'', KStr ''def'']) (PStr ''ghi'') = Inr False"
  "validate [] (HLiteral [KStr ''abc'', KStr ''def'']) (PInt 123) = Inr False"
  "validate [] (HBare C_type) (PClass (C_user (UCls ''A'' False []))) = Inr True"
  "validate [] (HBare C_type) (PObject (UCls ''A'' False []) 0) = Inr False"
  "validate [] (HAlias C_type [HClass (C_user (UCls ''A'' False []))]) (PClass (C_user (UCls ''A'' False []))) = Inr True"
  "validate [] (HAlias C_type [HClass (C_user (UCls ''A'' False []))]) (PObject (UCls ''A'' False []) 0) = Inr False"
  "validate [] (HClass (C_user (UCls ''A'' False []))) (PObject (UCls ''A'' False []) 0) = Inr True"
  "validate [] (HClass (C_user (UCls ''A'' False []))) (PClass (C_user (UCls ''A'' False []))) = Inr False"
  by (simp_all add: run)

lemma test_typeddict_validator:
  "validate [] (HTypedDict ''TypedDictExample'' False
      [(''name'', False, HClass C_str), (''version'', False, HClass C_str)]) (PDict []) = Inr True"
  "validate [] (HTypedDict ''TypedDictExample'' False
      [(''name'', False, HClass C_str), (''version'', False, HClass C_str)])
      (PDict [(PStr ''name'', PStr ''abc'')]) = Inr True"
  "validate [] (HTypedDict ''TypedDictExample'' False
      [(''name'', False, HClass C_str), (''version'', False, HClass C_str)])
      (PDict [(PStr ''name'', PStr ''abc''), (PStr ''extra'', PInt 123)]) = Inr True"
  "validate [] (HTypedDict ''TypedDictExample'' False
      [(''name'', False, HClass C_str), (''version'', False, HClass C_str)])
      (PDict [(PStr ''name'', PInt 123)]) = Inr False"
  "validate [] (HTypedDict ''TypedDictReq'' False
      [(''name'', True, HClass C_str), (''version'', False, HClass C_str)]) (PDict []) = Inr False"
  "validate [] (HTypedDict ''TypedDictReq'' False
      [(''name'', True, HClass C_str), (''version'', False, HClass C_str)])
      (PDict [(PStr ''name'', PStr ''abc'')]) = Inr True"
  "validate [] (HTypedDict ''TypedDictReq'' False
      [(''name'', True, HClass C_str), (''version'', False, HClass C_str)])
      (PDict [(PStr ''name'', PStr ''abc''), (PStr ''extra'', PInt 123)]) = Inr True"
  "validate [] (HTypedDict ''TypedDictTotal'' True
      [(''name'', True, HClass C_str), (''version'', False, HClass C_str)]) (PDict []) = Inr False"
  "validate [] (HTypedDict ''TypedDictTotal'' True
      [(''name'', True, HClass C_str), (''version'', False, HClass C_str)])
      (PDict [(PStr ''name'', PStr ''abc'')]) = Inr True"
  "validate [] (HTypedDict ''TypedDictTotal'' True
      [(''name'', True, HClass C_str), (''version'', False, HClass C_str)])
      (PDict [(PStr ''name'', PStr ''abc''), (PStr ''extra'', PInt 123)]) = Inr False"
  by (simp_all add: run)

lemma bare_initvar_raises: "validate [] (HClass C_InitVar) v = Inl TypeError"
  by (simp add: run)

lemma protocol_raises: "validate [] (HProtocol n) v = Inl TypeError"
  by (simp add: run)

lemma derived_typeddict_raises: "validate [] (HDerivedTypedDict n tot fs) v = Inl TypeError"
  by (simp add: run)

lemma type_of_typeddict_raises:
  "validate [] (HAlias C_type [HTypedDict n tot fs]) (PClass c0) = Inl TypeError"
  by (simp add: validate_def validator.simps get_validator_Type pred_type_sub_def
      isinstance_def issubclass_def)

section \<open>The claims\<close>

lemma isinstance_user_class: "isinstance (PClass x) (C_user u) = False"
  by (simp add: isinstance_def issubclass_def)

lemma denotation_HClass_plain:
  "cl \<noteq> C_float \<Longrightarrow> cl \<noteq> C_complex \<Longrightarrow> denotation (HClass cl) v = Inr (isinstance v cl)"
  by (simp add: pred_isinstance_def)
















text \<open>
  Claim C3.  Validating against \<open>Union[a, b]\<close> yields the disjunction of the verdicts for
  \<open>a\<close> and for \<open>b\<close>; in general a union accepts a value exactly when one of its
  members does.
\<close>

theorem union_is_disjunction:
  assumes "reachable c" and "well_formed a" and "well_formed b" and "list_all well_formed ts"
    and "ts \<noteq> []"
  shows "(\<exists>x y. validate c a v = Inr x \<and> validate c b v = Inr y \<and>
            validate c (HUnion [a, b]) v = Inr (x \<or> y)) \<and>
         validate c (HUnion ts) v = Inr (\<exists>t\<in>set ts. validate c t v = Inr True)"
proof -
  have each: "validate c t v = denotation t v" if "well_formed t" for t
    using validate_denotation[OF assms(1) that] .
  have nr: "\<forall>p\<in>set (map denotation ts). never_raises p"
    using assms(4) by (auto simp: list_all_iff dest: denotation_never_raises)
  have "validate c (HUnion ts) v = pred_any (map denotation ts) v"
    using validate_denotation[OF assms(1), of "HUnion ts"] assms(4,5) by simp
  also have "\<dots> = Inr (\<exists>p\<in>set (map denotation ts). p v = Inr True)"
    by (rule pred_any_char[OF nr])
  also have "(\<exists>p\<in>set (map denotation ts). p v = Inr True)
      = (\<exists>t\<in>set ts. validate c t v = Inr True)"
    using assms(4) each by (auto simp: list_all_iff)
  finally have general: "validate c (HUnion ts) v = Inr (\<exists>t\<in>set ts. validate c t v = Inr True)" .
  obtain x where x: "denotation a v = Inr x"
    using never_raisesD[OF denotation_never_raises[OF assms(2)], of v] by blast
  obtain y where y: "denotation b v = Inr y"
    using never_raisesD[OF denotation_never_raises[OF assms(3)], of v] by blast
  have "validate c (HUnion [a, b]) v = any_e [denotation a v, denotation b v]"
    using validate_denotation[OF assms(1), of "HUnion [a, b]"] assms(2,3)
    by (simp add: pred_any_def)
  also have "\<dots> = Inr (x \<or> y)" using x y by simp
  finally have "validate c (HUnion [a, b]) v = Inr (x \<or> y)" .
  with x y each[OF assms(2)] each[OF assms(3)] general show ?thesis by auto
qed

theorem union_is_disjunction_witness:
  "reachable [] \<and> well_formed (HClass C_str) \<and> well_formed (HClass C_int) \<and>
   list_all well_formed [HClass C_str, HClass C_int] \<and> [HClass C_str, HClass C_int] \<noteq> [] \<and>
   validate [] (HUnion [HClass C_str, HClass C_int]) (PInt 123) = Inr True"
  using union_is_disjunction[OF reachable.initial, of "HClass C_str" "HClass C_int"
      "[HClass C_str, HClass C_int]" "PInt 123"]
    validate_denotation[OF reachable.initial, of "HClass C_int" "PInt 123"]
    reachable.initial
  by (auto simp add: pred_isinstance_def isinstance_def issubclass_def)

text \<open>
  Claim C4.  The three tuple regimes: \<open>Tuple[()]\<close> accepts exactly the empty tuple;
  \<open>Tuple[d\<^sub>0, ..., d\<^sub>n]\<close> accepts exactly the tuples of that length whose element at
  each position is accepted by the annotation at that position; \<open>Tuple[d, ...]\<close> accepts
  exactly the tuples, of any length, all of whose elements \<open>d\<close> accepts.
\<close>

theorem tuple_regimes:
  assumes "reachable c" and "list_all well_formed ds" and "ds \<noteq> []" and "well_formed d"
  shows "validate c (HAlias C_tuple []) v = Inr (v = PTuple []) \<and>
         validate c (HAlias C_tuple ds) v =
           Inr (\<exists>xs. v = PTuple xs \<and> length xs = length ds \<and>
                  (\<forall>i<length ds. validate c (ds ! i) (xs ! i) = Inr True)) \<and>
         validate c (HAlias C_tuple [d, HConst KEllipsis]) v =
           Inr (\<exists>xs. v = PTuple xs \<and> (\<forall>x\<in>set xs. validate c d x = Inr True))"
proof -
  have each: "validate c t x = denotation t x" if "well_formed t" for t x
    using validate_denotation[OF assms(1) that] .
  have tuple_coll: "issubclass C_tuple Abc_Collection" "\<not> issubclass C_tuple Abc_Mapping"
    by (simp_all add: issubclass_def)
  have "validate c (HAlias C_tuple []) v = pred_tuple_empty C_tuple v"
    using validate_denotation[OF assms(1), of "HAlias C_tuple []"]
    by (simp add: issubclass_def)
  then have empty: "validate c (HAlias C_tuple []) v = Inr (v = PTuple [])"
    by (simp add: pred_tuple_empty_char)
  have noconst: "\<forall>t\<in>set ds. \<forall>k. t \<noteq> HConst k"
    using assms(2) by (auto simp: list_all_iff)
  have shape: "ds \<noteq> [HConst KEmptyTuple]" "\<not> (length ds = 2 \<and> ds ! 1 = HConst KEllipsis)"
  proof -
    show "ds \<noteq> [HConst KEmptyTuple]" using noconst by auto
    show "\<not> (length ds = 2 \<and> ds ! 1 = HConst KEllipsis)"
    proof
      assume a: "length ds = 2 \<and> ds ! 1 = HConst KEllipsis"
      then have "ds ! 1 \<in> set ds" by (intro nth_mem) simp
      with noconst a show False by metis
    qed
  qed
  have wfds: "well_formed (HAlias C_tuple ds)"
    using assms(2) tuple_coll by (simp add: issubclass_tuple)
  have nr: "\<forall>p\<in>set (map denotation ds). never_raises p"
    using assms(2) by (auto simp: list_all_iff dest: denotation_never_raises)
  have "validate c (HAlias C_tuple ds) v = pred_tuple_fixed C_tuple (map denotation ds) v"
    using validate_denotation[OF assms(1) wfds] assms(3) shape tuple_coll
    by (auto simp add: issubclass_tuple Let_def)
  also have "\<dots> = Inr (\<exists>xs. v = PTuple xs \<and> length xs = length (map denotation ds) \<and>
                  (\<forall>i<length (map denotation ds). (map denotation ds ! i) (xs ! i) = Inr True))"
    by (rule pred_tuple_fixed_char[OF nr])
  also have "(\<exists>xs. v = PTuple xs \<and> length xs = length (map denotation ds) \<and>
                  (\<forall>i<length (map denotation ds). (map denotation ds ! i) (xs ! i) = Inr True))
      = (\<exists>xs. v = PTuple xs \<and> length xs = length ds \<and>
                  (\<forall>i<length ds. validate c (ds ! i) (xs ! i) = Inr True))"
    using assms(2) each by (auto simp: list_all_length)
  finally have fixed: "validate c (HAlias C_tuple ds) v =
           Inr (\<exists>xs. v = PTuple xs \<and> length xs = length ds \<and>
                  (\<forall>i<length ds. validate c (ds ! i) (xs ! i) = Inr True))" .
  have wfv: "well_formed (HAlias C_tuple [d, HConst KEllipsis])"
    using assms(4) tuple_coll by (simp add: issubclass_tuple)
  have "validate c (HAlias C_tuple [d, HConst KEllipsis]) v = pred_items C_tuple (denotation d) v"
    using validate_denotation[OF assms(1) wfv] tuple_coll by (simp add: issubclass_tuple Let_def)
  also have "\<dots> = Inr (isinstance v C_tuple \<and>
       (\<exists>xs. py_iter v = Inr xs \<and> (\<forall>x\<in>set xs. denotation d x = Inr True)))"
    by (rule pred_items_char[OF tuple_coll(1) denotation_never_raises[OF assms(4)]])
  also have "(isinstance v C_tuple \<and>
       (\<exists>xs. py_iter v = Inr xs \<and> (\<forall>x\<in>set xs. denotation d x = Inr True)))
      = (\<exists>xs. v = PTuple xs \<and> (\<forall>x\<in>set xs. validate c d x = Inr True))"
    using each[OF assms(4)] by (auto simp: isinstance_tuple)
  finally have variadic: "validate c (HAlias C_tuple [d, HConst KEllipsis]) v =
           Inr (\<exists>xs. v = PTuple xs \<and> (\<forall>x\<in>set xs. validate c d x = Inr True))" .
  from empty fixed variadic show ?thesis by simp
qed

theorem tuple_regimes_witness:
  "reachable [] \<and> list_all well_formed [HClass C_int] \<and> [HClass C_int] \<noteq> [] \<and>
   well_formed (HClass C_int) \<and>
   validate [] (HAlias C_tuple [HClass C_int]) (PTuple [PInt 1, PInt 2]) = Inr False"
  using tuple_regimes[OF reachable.initial, of "[HClass C_int]" "HClass C_int" "PTuple [PInt 1, PInt 2]"]
    reachable.initial
  by simp

text \<open>
  Claim C5.  Scalars widen numbers but not booleans: \<open>float\<close> accepts every \<open>int\<close> and
  every \<open>float\<close>, \<open>complex\<close> accepts every \<open>int\<close>, \<open>float\<close> and \<open>complex\<close>,
  \<open>bool\<close> rejects every integer that is no boolean, and every other class used as a scalar
  annotation accepts exactly its instances.
\<close>

theorem scalar_widening:
  assumes "reachable c"
  shows "validate c (HClass C_float) v = Inr (isinstance v C_int \<or> isinstance v C_float) \<and>
         validate c (HClass C_float) (PInt i) = Inr True \<and>
         validate c (HClass C_float) (PFloat r) = Inr True \<and>
         validate c (HClass C_complex) v =
           Inr (isinstance v C_int \<or> isinstance v C_float \<or> isinstance v C_complex) \<and>
         validate c (HClass C_complex) (PInt i) = Inr True \<and>
         validate c (HClass C_complex) (PFloat r) = Inr True \<and>
         validate c (HClass C_complex) (PComplex r r') = Inr True \<and>
         validate c (HClass C_bool) (PInt i) = Inr False \<and>
         (cl \<noteq> C_float \<longrightarrow> cl \<noteq> C_complex \<longrightarrow> cl \<noteq> C_InitVar \<longrightarrow>
            validate c (HClass cl) v = Inr (isinstance v cl))"
proof -
  have d: "validate c (HClass k) x = denotation (HClass k) x" if "k \<noteq> C_InitVar" for k x
    using validate_denotation[OF assms, of "HClass k" x] that by simp
  show ?thesis
    by (simp add: d pred_float_def pred_complex_def pred_isinstance_def isinstance_def
        issubclass_def)
qed

theorem scalar_widening_witness:
  "reachable [] \<and> validate [] (HClass C_float) (PInt 1) = Inr True \<and>
   validate [] (HClass C_complex) (PFloat (3 / 2)) = Inr True \<and>
   validate [] (HClass C_bool) (PInt 1) = Inr False \<and>
   validate [] (HClass C_str) (PInt 1) = Inr False"
  using scalar_widening[OF reachable.initial, of "PInt 1" 1 "3 / 2" 0 C_str] reachable.initial
  by (simp add: isinstance_def issubclass_def)

text \<open>
  Claim C6.  A \<open>Literal\<close> with allowed values \<open>ks\<close> (at least one, as every \<open>Literal[...]\<close>
  that a type checker accepts has) accepts a value exactly when it equals one of them under
  Python's \<open>==\<close>, with no check of its type; so a literal that allows the integer \<open>1\<close>
  accepts \<open>True\<close>.
\<close>

theorem literal_membership:
  assumes "reachable c" and "ks \<noteq> []"
  shows "validate c (HLiteral ks) v = Inr (\<exists>k\<in>set ks. py_eq k v) \<and>
         (KInt 1 \<in> set ks \<longrightarrow> validate c (HLiteral ks) (PBool True) = Inr True)"
proof -
  have "validate c (HLiteral ks) x = Inr (\<exists>k\<in>set ks. py_eq k x)" for x
    using validate_denotation[OF assms(1), of "HLiteral ks" x] assms(2)
    by (simp add: pred_literal_def py_in_consts)
  moreover have "\<exists>k\<in>set ks. py_eq k (PBool True)" if "KInt 1 \<in> set ks"
    using that by (rule rev_bexI) simp
  ultimately show ?thesis by simp
qed

theorem literal_membership_witness:
  "reachable [] \<and> [KStr ''a'', KStr ''b''] \<noteq> [] \<and>
   validate [] (HLiteral [KStr ''a'', KStr ''b'']) (PStr ''a'') = Inr True \<and>
   validate [] (HLiteral [KStr ''a'', KStr ''b'']) (PStr ''c'') = Inr False \<and>
   validate [] (HLiteral [KInt 1]) (PBool True) = Inr True"
  using literal_membership[OF reachable.initial, of "[KStr ''a'', KStr ''b'']" "PStr ''a''"]
    literal_membership[OF reachable.initial, of "[KStr ''a'', KStr ''b'']" "PStr ''c''"]
    literal_membership[OF reachable.initial, of "[KInt 1]" "PBool True"]
    reachable.initial
  by simp

lemma empty_literal_accepts_empty_tuple:
  "validate [] (HLiteral []) (PTuple []) = Inr True"
  using validate_denotation[OF reachable.initial, of "HLiteral []" "PTuple []"]
  by (simp add: pred_literal_def py_in_def)

text \<open>
  Claim C7, as stated, fails: \<open>Type[List[int]]\<close> applied to the class \<open>int\<close> raises
  \<open>TypeError\<close>, because \<open>issubclass\<close> refuses a subscripted generic as its second
  argument.
\<close>

theorem type_bound_raises:
  "validate [] (HAlias C_type [HAlias C_list [HClass C_int]]) (PClass C_int) = Inl TypeError"
  by (simp add: validate_def validator.simps get_validator_Type pred_type_sub_def
      isinstance_def issubclass_def)

text \<open>
  Claim C7, amended.  For every well-formed annotation, every value and every cache that
  can arise, \<open>validate\<close> returns a boolean and raises nothing.  The well-formed annotations
  are built from \<open>Any\<close>, unions, \<open>TypedDict\<close> classes that name \<open>typing.TypedDict\<close>
  among their bases, \<open>NewType\<close>, \<open>Literal\<close>, \<open>InitVar[t]\<close>, the collection, mapping
  and tuple aliases, \<open>Type\<close> and \<open>Type[b]\<close> with \<open>b\<close> a class of the class model, an
  unsubscripted alias or \<open>Any\<close>, and the classes of the class model other than
  \<open>InitVar\<close>.  They leave out what raises on a value: the unparameterised \<open>InitVar\<close>,
  \<open>Type[b]\<close> for any other \<open>b\<close>, the \<open>TypedDict\<close> classes that \<open>is_typed_dict\<close>
  does not recognise, and the \<open>Protocol\<close> classes that are not runtime checkable.
\<close>

theorem validate_total:
  assumes "reachable c" and "well_formed t"
  shows "\<exists>b. validate c t v = Inr b"
  using never_raisesD[OF denotation_never_raises[OF assms(2)], of v]
    validate_denotation[OF assms, of v] by simp

theorem validate_total_witness:
  "reachable [] \<and> well_formed (HAlias C_list [HClass C_str]) \<and>
   (\<exists>b. validate [] (HAlias C_list [HClass C_str]) (PInt 5) = Inr b)"
  using validate_total[OF reachable.initial, of "HAlias C_list [HClass C_str]" "PInt 5"]
    reachable.initial
  by (simp add: issubclass_def)

text \<open>
  Claim C8, as stated, fails: \<open>Union[Any, Type[List[int]]]\<close> accepts the class \<open>int\<close> on
  a fresh cache, but once \<open>Union[Type[List[int]], Any]\<close> has been compiled the two unions
  are equal keys of \<open>VALIDATORS\<close>, the cached predicate asks the raising member first, and
  the same call raises \<open>TypeError\<close>.
\<close>

theorem stale_union_raises:
  "validate [] (HUnion [HAny, HAlias C_type [HAlias C_list [HClass C_int]]]) (PClass C_int)
     = Inr True \<and>
   validate (snd (validator (HUnion [HAlias C_type [HAlias C_list [HClass C_int]], HAny]) []))
     (HUnion [HAny, HAlias C_type [HAlias C_list [HClass C_int]]]) (PClass C_int)
     = Inl TypeError"
  by (simp add: run)

text \<open>
  Claim C8, amended.  For every well-formed annotation (those of claim C7, on which no
  member raises) and every value, \<open>validate\<close> returns the same boolean on all caches that
  can arise, whatever has been compiled before, and compiles to the same predicate on all of
  them; and for every annotation whatsoever, compiling it again on the cache the first
  compilation left yields the same predicate.
\<close>

theorem cache_independence:
  assumes "reachable c" and "reachable c'" and "well_formed t"
  shows "validate c t v = validate c' t v \<and>
         (\<exists>b. validate c t v = Inr b) \<and>
         (\<exists>p. fst (validator t c) = Inr p \<and> fst (validator t c') = Inr p) \<and>
         (fst (validator d k) = Inr q \<longrightarrow> fst (validator d (snd (validator d k))) = Inr q)"
proof -
  have "\<exists>b. validate c t v = Inr b"
    using never_raisesD[OF denotation_never_raises[OF assms(3)], of v]
      validate_denotation[OF assms(1,3), of v] by simp
  moreover have "fst (validator d (snd (validator d k))) = Inr q"
    if "fst (validator d k) = Inr q"
    using validator_again[OF that] by simp
  ultimately show ?thesis
    using validate_denotation[OF assms(1,3), of v] validate_denotation[OF assms(2,3), of v]
      validator_denotation[OF assms(1,3)] validator_denotation[OF assms(2,3)]
    by simp
qed

theorem cache_independence_witness:
  "reachable [] \<and> reachable (snd (validator (HClass C_str) [])) \<and>
   well_formed (HUnion [HClass C_str, HClass C_int]) \<and>
   validate [] (HUnion [HClass C_str, HClass C_int]) (PInt 1)
     = validate (snd (validator (HClass C_str) [])) (HUnion [HClass C_str, HClass C_int]) (PInt 1)"
  using cache_independence[where c = "[]" and c' = "snd (validator (HClass C_str) [])"
      and t = "HUnion [HClass C_str, HClass C_int]" and v = "PInt 1"]
    reachable.initial reachable.compiled[OF reachable.initial, of "HClass C_str"]
  by simp

text \<open>
  Claim C9.  For a dataclass \<open>T\<close>, validation is the nominal check: the verdict is true
  exactly for the instances of \<open>T\<close>, the class object \<open>T\<close> itself is rejected, and
  \<open>get_validator\<close> answers at once without compiling anything else (the cache is returned
  as it was), so nothing is read from the fields of \<open>T\<close>; the field table of a dataclass
  whose field refers back to \<open>T\<close> compiles.
\<close>

theorem record_nominal:
  assumes "reachable c" and "is_dataclass (HClass (C_user u))"
  shows "validate c (HClass (C_user u)) v = Inr (isinstance v (C_user u)) \<and>
         validate c (HClass (C_user u)) (PClass (C_user u)) = Inr False \<and>
         get_validator (HClass (C_user u)) c = (Inr (pred_isinstance (HClass (C_user u))), c) \<and>
         (\<exists>ps. fst (dataclass_field_validators
                  [(''next'', HUnion [HClass (C_user u), HClass C_NoneType])] c) = Inr ps)"
proof -
  have v: "validate c (HClass (C_user u)) x = Inr (isinstance x (C_user u))" for x
    using validate_denotation[OF assms(1), of "HClass (C_user u)" x]
    by (simp add: pred_isinstance_def)
  have "isinstance (PClass (C_user u)) (C_user u) = False"
    by (simp add: isinstance_def issubclass_def)
  with v[of "PClass (C_user u)"] have cls: "validate c (HClass (C_user u)) (PClass (C_user u)) = Inr False"
    by simp
  have g: "get_validator (HClass (C_user u)) c = (Inr (pred_isinstance (HClass (C_user u))), c)"
    by (simp add: get_validator_HClass)
  let ?hints = "[(''next'', HUnion [HClass (C_user u), HClass C_NoneType])]"
  have "\<forall>z\<in>set ?hints. good (snd z)" by (simp add: validator_good)
  from validator_dict_good[OF this reachable_cache_ok[OF assms(1)]]
  have "\<exists>ps. fst (dataclass_field_validators ?hints c) = Inr ps"
    by (simp add: dataclass_field_validators_def)
  with v cls g show ?thesis by simp
qed

theorem record_nominal_witness:
  "reachable [] \<and> is_dataclass (HClass (C_user (UCls ''T'' True []))) \<and>
   validate [] (HClass (C_user (UCls ''T'' True []))) (PObject (UCls ''T'' True []) 0) = Inr True \<and>
   validate [] (HClass (C_user (UCls ''T'' True []))) (PClass (C_user (UCls ''T'' True []))) = Inr False"
  using record_nominal[OF reachable.initial, of "UCls ''T'' True []" "PObject (UCls ''T'' True []) 0"]
    reachable.initial
  by (simp add: isinstance_def issubclass_def)

text \<open>
  Claim C10.  Every boolean satisfies the \<open>int\<close> annotation, and likewise \<open>float\<close> and
  \<open>complex\<close>, since \<open>bool\<close> derives from \<open>int\<close>; yet \<open>bool\<close> rejects the integer
  \<open>1\<close>.
\<close>

theorem bool_is_int:
  assumes "reachable c"
  shows "validate c (HClass C_int) (PBool b) = Inr True \<and>
         validate c (HClass C_float) (PBool b) = Inr True \<and>
         validate c (HClass C_complex) (PBool b) = Inr True \<and>
         validate c (HClass C_bool) (PInt 1) = Inr False"
proof -
  have d: "validate c (HClass k) x = denotation (HClass k) x" if "k \<noteq> C_InitVar" for k x
    using validate_denotation[OF assms, of "HClass k" x] that by simp
  show ?thesis
    by (simp add: d pred_float_def pred_complex_def pred_isinstance_def isinstance_def
        issubclass_def)
qed

theorem bool_is_int_witness:
  "reachable [] \<and> validate [] (HClass C_int) (PBool True) = Inr True \<and>
   validate [] (HClass C_bool) (PInt 1) = Inr False"
  using bool_is_int[OF reachable.initial, of True] reachable.initial
  by simp


end
